theory Spec2Isabelle
  imports Complex_Main
begin

section \<open>JavaScript numbers\<close>

text \<open>
  A JavaScript \<^verbatim>\<open>number\<close> is modelled as an exact real, or one of the three special
  values \<^verbatim>\<open>Infinity\<close>, \<^verbatim>\<open>-Infinity\<close> and \<^verbatim>\<open>NaN\<close>. The operations follow the
  ECMAScript rules for the special values (division by zero, \<^verbatim>\<open>Math.pow\<close> with a zero
  base or an infinite exponent, comparisons with \<^verbatim>\<open>NaN\<close>). A quotient of finite numbers
  overflows to an infinity as the double division does; apart from that the operations
  on finite operands are the exact real ones (rounding and underflow are not modelled,
  nor is the overflow of sums, products and powers), and \<^verbatim>\<open>-0\<close> is identified with
  \<^verbatim>\<open>0\<close>.
\<close>

datatype num = Fin real | PInf | NInf | NaN

text \<open>
  \<^verbatim>\<open>Math.PI\<close> is the double nearest to \<open>pi\<close>, the number \<open>884279719003555 / 2 ^ 48\<close>
  (\<open>3.141592653589793115997963...\<close>, about \<open>1.22 / 10 ^ 16\<close> below \<open>pi\<close>).
\<close>

definition Math_PI :: real where
  "Math_PI = 884279719003555 / 2 ^ 48"

text \<open>
  A real number whose magnitude reaches \<open>2 ^ 1024 - 2 ^ 970\<close> (half a unit in the last
  place above the largest double) rounds to an infinity.
\<close>

definition overflow_limit :: real where
  "overflow_limit = 2 ^ 1024 - 2 ^ 970"

definition fl_range :: "real \<Rightarrow> num" where
  "fl_range x =
     (if overflow_limit \<le> x then PInf else if x \<le> - overflow_limit then NInf else Fin x)"

fun js_add :: "num \<Rightarrow> num \<Rightarrow> num" where
  "js_add (Fin x) (Fin y) = Fin (x + y)"
| "js_add NaN _ = NaN"
| "js_add _ NaN = NaN"
| "js_add PInf NInf = NaN"
| "js_add NInf PInf = NaN"
| "js_add PInf _ = PInf"
| "js_add _ PInf = PInf"
| "js_add NInf _ = NInf"
| "js_add _ NInf = NInf"

fun js_mul :: "num \<Rightarrow> num \<Rightarrow> num" where
  "js_mul (Fin x) (Fin y) = Fin (x * y)"
| "js_mul NaN _ = NaN"
| "js_mul _ NaN = NaN"
| "js_mul PInf (Fin y) = (if y = 0 then NaN else if 0 < y then PInf else NInf)"
| "js_mul NInf (Fin y) = (if y = 0 then NaN else if 0 < y then NInf else PInf)"
| "js_mul (Fin x) PInf = (if x = 0 then NaN else if 0 < x then PInf else NInf)"
| "js_mul (Fin x) NInf = (if x = 0 then NaN else if 0 < x then NInf else PInf)"
| "js_mul PInf PInf = PInf"
| "js_mul NInf NInf = PInf"
| "js_mul PInf NInf = NInf"
| "js_mul NInf PInf = NInf"

fun js_div :: "num \<Rightarrow> num \<Rightarrow> num" where
  "js_div (Fin x) (Fin y) =
     (if y = 0 then (if x = 0 then NaN else if 0 < x then PInf else NInf)
      else fl_range (x / y))"
| "js_div NaN _ = NaN"
| "js_div _ NaN = NaN"
| "js_div (Fin x) PInf = Fin 0"
| "js_div (Fin x) NInf = Fin 0"
| "js_div PInf (Fin y) = (if 0 \<le> y then PInf else NInf)"
| "js_div NInf (Fin y) = (if 0 \<le> y then NInf else PInf)"
| "js_div PInf PInf = NaN"
| "js_div PInf NInf = NaN"
| "js_div NInf PInf = NaN"
| "js_div NInf NInf = NaN"

fun js_abs :: "num \<Rightarrow> num" where
  "js_abs (Fin x) = Fin \<bar>x\<bar>"
| "js_abs PInf = PInf"
| "js_abs NInf = PInf"
| "js_abs NaN = NaN"

fun js_cos :: "num \<Rightarrow> num" where
  "js_cos (Fin x) = Fin (cos x)"
| "js_cos _ = NaN"

fun js_sin :: "num \<Rightarrow> num" where
  "js_sin (Fin x) = Fin (sin x)"
| "js_sin _ = NaN"

text \<open>The comparison \<^verbatim>\<open>x > y\<close>: false as soon as one side is \<^verbatim>\<open>NaN\<close>.\<close>

fun js_gt :: "num \<Rightarrow> num \<Rightarrow> bool" where
  "js_gt (Fin x) (Fin y) = (y < x)"
| "js_gt NaN _ = False"
| "js_gt _ NaN = False"
| "js_gt PInf PInf = False"
| "js_gt PInf _ = True"
| "js_gt NInf _ = False"
| "js_gt (Fin x) PInf = False"
| "js_gt (Fin x) NInf = True"

definition odd_integer :: "real \<Rightarrow> bool" where
  "odd_integer e = (of_int \<lfloor>e\<rfloor> = e \<and> odd \<lfloor>e\<rfloor>)"

text \<open>
  \<^verbatim>\<open>Math.pow(base, exponent)\<close>, case by case as \<^verbatim>\<open>Number::exponentiate\<close> lists them:
  a \<^verbatim>\<open>NaN\<close> exponent first, then a zero exponent (the result is 1 even for a \<^verbatim>\<open>NaN\<close>
  base), a \<^verbatim>\<open>NaN\<close> base, the infinite and the zero bases, the infinite exponents
  (\<^verbatim>\<open>NaN\<close> when the base has magnitude 1), a negative base with a fractional exponent
  (\<^verbatim>\<open>NaN\<close>), and at last the ordinary power.
\<close>

fun js_pow :: "num \<Rightarrow> num \<Rightarrow> num" where
  "js_pow b NaN = NaN"
| "js_pow b (Fin e) =
     (if e = 0 then Fin 1
      else case b of
        NaN \<Rightarrow> NaN
      | PInf \<Rightarrow> (if 0 < e then PInf else Fin 0)
      | NInf \<Rightarrow> (if 0 < e then (if odd_integer e then NInf else PInf) else Fin 0)
      | Fin x \<Rightarrow>
          (if x = 0 then (if 0 < e then Fin 0 else PInf)
           else if x < 0 \<and> of_int \<lfloor>e\<rfloor> \<noteq> e then NaN
           else if x < 0 then Fin (x powi \<lfloor>e\<rfloor>)
           else Fin (x powr e)))"
| "js_pow b PInf =
     (case b of
        NaN \<Rightarrow> NaN
      | PInf \<Rightarrow> PInf
      | NInf \<Rightarrow> PInf
      | Fin x \<Rightarrow>
          (if x = 0 then Fin 0
           else if 1 < \<bar>x\<bar> then PInf
           else if \<bar>x\<bar> = 1 then NaN
           else Fin 0))"
| "js_pow b NInf =
     (case b of
        NaN \<Rightarrow> NaN
      | PInf \<Rightarrow> Fin 0
      | NInf \<Rightarrow> Fin 0
      | Fin x \<Rightarrow>
          (if x = 0 then PInf
           else if 1 < \<bar>x\<bar> then Fin 0
           else if \<bar>x\<bar> = 1 then NaN
           else PInf))"


section \<open>The superformula evaluator (ParametricDesigner.tsx)\<close>

text \<open>
  \<^verbatim>\<open>SuperformulaParams\<close> of the type declarations. The shape parameters are finite
  numbers; \<open>resolution\<close> is the integer sample count (every preset and Randomize set
  360 or 720, and no control changes it).
\<close>

record SuperformulaParams =
  m :: real
  n1 :: real
  n2 :: real
  n3 :: real
  a :: real
  b :: real
  resolution :: int

record vertex =
  vx :: num
  vy :: num

definition scale :: real where
  "scale = 150"

text \<open>\<^verbatim>\<open>const phi = (i * 2 * Math.PI) / p.resolution\<close>\<close>

definition sample_phi :: "SuperformulaParams \<Rightarrow> int \<Rightarrow> num" where
  "sample_phi p i =
     js_div (js_mul (js_mul (Fin (of_int i)) (Fin 2)) (Fin Math_PI)) (Fin (of_int (resolution p)))"

text \<open>
  The radius of one sample, lines 25 to 34 of the loop body: \<open>r\<close> starts at 0, is
  overwritten when \<^verbatim>\<open>Math.abs(t1 + t2) > 0\<close>, and is cut at 20.
\<close>

definition radius :: "SuperformulaParams \<Rightarrow> num \<Rightarrow> num" where
  "radius p phi =
     (let t1 = js_pow (js_abs (js_div (js_cos (js_div (js_mul (Fin (m p)) phi) (Fin 4))) (Fin (a p))))
                 (Fin (n2 p));
          t2 = js_pow (js_abs (js_div (js_sin (js_div (js_mul (Fin (m p)) phi) (Fin 4))) (Fin (b p))))
                 (Fin (n3 p));
          r = (if js_gt (js_abs (js_add t1 t2)) (Fin 0)
               then js_pow (js_add t1 t2) (js_div (Fin (- 1)) (Fin (n1 p)))
               else Fin 0)
      in if js_gt r (Fin 20) then Fin 20 else r)"

text \<open>The pushed point, lines 36 to 39.\<close>

definition point_at :: "num \<Rightarrow> num \<Rightarrow> vertex" where
  "point_at r phi =
     \<lparr> vx = js_add (Fin 250) (js_mul (js_mul r (js_cos phi)) (Fin scale)),
       vy = js_add (Fin 250) (js_mul (js_mul r (js_sin phi)) (Fin scale)) \<rparr>"

text \<open>
  The loop \<^verbatim>\<open>for (let i = 0; i <= p.resolution; i++)\<close>, with the array \<open>points\<close> as
  accumulator.
\<close>

function calculatePoints_loop :: "SuperformulaParams \<Rightarrow> int \<Rightarrow> vertex list \<Rightarrow> vertex list" where
  "calculatePoints_loop p i points =
     (if i \<le> resolution p
      then calculatePoints_loop p (i + 1)
             (points @ [let phi = sample_phi p i; r = radius p phi in point_at r phi])
      else points)"
  by pat_completeness auto
termination
  by (relation "measure (\<lambda>(p, i, points). nat (resolution p + 1 - i))") auto

definition calculatePoints :: "SuperformulaParams \<Rightarrow> vertex list" where
  "calculatePoints p = calculatePoints_loop p 0 []"

declare calculatePoints_loop.simps [simp del]

section \<open>Randomize (ParametricDesigner.tsx, handleRandomize)\<close>

text \<open>
  \<^verbatim>\<open>x.toFixed(1)\<close> read back by \<^verbatim>\<open>parseFloat\<close>: the multiple of one tenth nearest to
  \<open>x\<close>, the larger in magnitude when two are equally near (the digits that
  \<^verbatim>\<open>toFixed\<close> prints for a number below \<open>10 ^ 21\<close> in magnitude).
\<close>

definition toFixed1 :: "real \<Rightarrow> real" where
  "toFixed1 x =
     (if x < 0 then - (of_int \<lfloor>- x * 10 + 1 / 2\<rfloor> / 10) else of_int \<lfloor>x * 10 + 1 / 2\<rfloor> / 10)"

text \<open>
  The four arguments are the results of the four calls of \<^verbatim>\<open>Math.random()\<close>, in the
  order of the object literal; each lies in the interval from 0 (included) to 1
  (excluded).
\<close>

definition handleRandomize :: "real \<Rightarrow> real \<Rightarrow> real \<Rightarrow> real \<Rightarrow> SuperformulaParams" where
  "handleRandomize u1 u2 u3 u4 =
     \<lparr> m = of_int \<lfloor>u1 * 16\<rfloor> + 2,
       n1 = toFixed1 (u2 * 10 + 0.1),
       n2 = toFixed1 (u3 * 5 + 0.1),
       n3 = toFixed1 (u4 * 5 + 0.1),
       a = 1,
       b = 1,
       resolution = 360 \<rparr>"


section \<open>The canvas\<close>

text \<open>
  The part of \<^verbatim>\<open>CanvasRenderingContext2D\<close> that \<open>drawTree\<close> uses: the current
  transformation matrix, the stroke style and line width, the stack of saved states,
  the current path as a list of subpaths (points already transformed), and the
  segments drawn so far.
\<close>

type_synonym point = "real \<times> real"

record matrix =
  ma :: real
  mb :: real
  mc :: real
  md :: real
  me :: real
  mf :: real

definition identity_matrix :: matrix where
  "identity_matrix = \<lparr> ma = 1, mb = 0, mc = 0, md = 1, me = 0, mf = 0 \<rparr>"

definition transform_point :: "matrix \<Rightarrow> point \<Rightarrow> point" where
  "transform_point M p =
     (ma M * fst p + mc M * snd p + me M, mb M * fst p + md M * snd p + mf M)"

definition mat_translate :: "real \<Rightarrow> real \<Rightarrow> matrix \<Rightarrow> matrix" where
  "mat_translate tx ty M =
     M \<lparr> me := ma M * tx + mc M * ty + me M, mf := mb M * tx + md M * ty + mf M \<rparr>"

definition mat_rotate :: "real \<Rightarrow> matrix \<Rightarrow> matrix" where
  "mat_rotate t M =
     M \<lparr> ma := ma M * cos t + mc M * sin t,
         mb := mb M * cos t + md M * sin t,
         mc := mc M * cos t - ma M * sin t,
         md := md M * cos t - mb M * sin t \<rparr>"

definition mat_scale :: "real \<Rightarrow> real \<Rightarrow> matrix \<Rightarrow> matrix" where
  "mat_scale sx sy M =
     M \<lparr> ma := ma M * sx, mb := mb M * sx, mc := mc M * sy, md := md M * sy \<rparr>"

text \<open>
  A stroke style is the canvas default or the colour \<^verbatim>\<open>hsl(h, s%, l%)\<close>.
\<close>

datatype style = Default_style | Hsl real real real

record segment =
  seg_start :: point
  seg_end :: point
  seg_style :: style
  seg_width :: real

record canvas =
  ctm :: matrix
  strokeStyle :: style
  lineWidth :: real
  saved :: "(matrix \<times> style \<times> real) list"
  path :: "point list list"
  display :: "segment list"

definition beginPath :: "canvas \<Rightarrow> canvas" where
  "beginPath ctx = ctx \<lparr> path := [] \<rparr>"

definition save :: "canvas \<Rightarrow> canvas" where
  "save ctx = ctx \<lparr> saved := (ctm ctx, strokeStyle ctx, lineWidth ctx) # saved ctx \<rparr>"

text \<open>\<^verbatim>\<open>restore\<close> does nothing when no state is saved.\<close>

definition restore :: "canvas \<Rightarrow> canvas" where
  "restore ctx =
     (case saved ctx of
        [] \<Rightarrow> ctx
      | (M, st, w) # rest \<Rightarrow> ctx \<lparr> ctm := M, strokeStyle := st, lineWidth := w, saved := rest \<rparr>)"

definition translate :: "real \<Rightarrow> real \<Rightarrow> canvas \<Rightarrow> canvas" where
  "translate tx ty ctx = ctx \<lparr> ctm := mat_translate tx ty (ctm ctx) \<rparr>"

definition rotate_ctx :: "real \<Rightarrow> canvas \<Rightarrow> canvas" where
  "rotate_ctx t ctx = ctx \<lparr> ctm := mat_rotate t (ctm ctx) \<rparr>"

definition scale_ctx :: "real \<Rightarrow> real \<Rightarrow> canvas \<Rightarrow> canvas" where
  "scale_ctx sx sy ctx = ctx \<lparr> ctm := mat_scale sx sy (ctm ctx) \<rparr>"

definition moveTo :: "real \<Rightarrow> real \<Rightarrow> canvas \<Rightarrow> canvas" where
  "moveTo x y ctx = ctx \<lparr> path := path ctx @ [[transform_point (ctm ctx) (x, y)]] \<rparr>"

text \<open>\<^verbatim>\<open>lineTo\<close> on an empty path starts a subpath at the point, as \<^verbatim>\<open>moveTo\<close> does.\<close>

definition lineTo :: "real \<Rightarrow> real \<Rightarrow> canvas \<Rightarrow> canvas" where
  "lineTo x y ctx =
     (case path ctx of
        [] \<Rightarrow> ctx \<lparr> path := [[transform_point (ctm ctx) (x, y)]] \<rparr>
      | _ # _ \<Rightarrow>
          ctx \<lparr> path := butlast (path ctx) @ [last (path ctx) @ [transform_point (ctm ctx) (x, y)]] \<rparr>)"

text \<open>
  Assigning \<^verbatim>\<open>ctx.strokeStyle = `hsl(${h}, 70%, ${l}%)`\<close>: a string that is not a
  colour (here: \<open>h\<close> or \<open>l\<close> printed as \<^verbatim>\<open>NaN\<close> or \<^verbatim>\<open>Infinity\<close>) leaves the style
  as it was. Assigning \<^verbatim>\<open>ctx.lineWidth\<close>: a value that is not positive is ignored.
\<close>

definition set_strokeStyle :: "num \<Rightarrow> num \<Rightarrow> canvas \<Rightarrow> canvas" where
  "set_strokeStyle h l ctx =
     (case (h, l) of
        (Fin hv, Fin lv) \<Rightarrow> ctx \<lparr> strokeStyle := Hsl hv 70 lv \<rparr>
      | _ \<Rightarrow> ctx)"

definition set_lineWidth :: "real \<Rightarrow> canvas \<Rightarrow> canvas" where
  "set_lineWidth w ctx = (if 0 < w then ctx \<lparr> lineWidth := w \<rparr> else ctx)"

text \<open>
  \<^verbatim>\<open>stroke\<close> draws, for every subpath, the segment between each point and the next,
  with the current style and width.
\<close>

definition subpath_segments :: "style \<Rightarrow> real \<Rightarrow> point list \<Rightarrow> segment list" where
  "subpath_segments st w ps =
     map (\<lambda>(p, q). \<lparr> seg_start = p, seg_end = q, seg_style = st, seg_width = w \<rparr>) (zip ps (tl ps))"

definition stroke :: "canvas \<Rightarrow> canvas" where
  "stroke ctx =
     ctx \<lparr> display := display ctx @
             concat (map (subpath_segments (strokeStyle ctx) (lineWidth ctx)) (path ctx)) \<rparr>"

definition seg_length :: "segment \<Rightarrow> real" where
  "seg_length sg =
     sqrt ((fst (seg_end sg) - fst (seg_start sg))\<^sup>2 + (snd (seg_end sg) - snd (seg_start sg))\<^sup>2)"


section \<open>The fractal tree (AlgorithmicDesigner)\<close>

record FractalParams =
  angle :: real
  depth :: int
  lengthMultiplier :: real
  branchCount :: int

text \<open>The component state: the five \<^verbatim>\<open>useState\<close> cells.\<close>

record view =
  params :: FractalParams
  growth :: real
  isAnimating :: bool
  enableWind :: bool
  time :: real

definition initial_view :: view where
  "initial_view =
     \<lparr> params = \<lparr> angle = 25, depth = 10, lengthMultiplier = 0.7, branchCount = 2 \<rparr>,
       growth = 0, isAnimating = True, enableWind = False, time = 0 \<rparr>"

definition js_sub :: "num \<Rightarrow> num \<Rightarrow> num" where
  "js_sub x y = js_add x (js_mul (Fin (- 1)) y)"

text \<open>
  \<open>drawTree\<close> reads \<open>params\<close>, \<open>growth\<close>, \<open>enableWind\<close> and \<open>time\<close> from the component
  state \<open>s\<close> and threads the canvas through its calls. The parameters \<open>angle\<close> and
  \<open>depth\<close> of the source are \<open>ang\<close> and \<open>dep\<close> here (the record fields have the
  names).
\<close>

function drawTree ::
  "view \<Rightarrow> canvas \<Rightarrow> real \<Rightarrow> real \<Rightarrow> real \<Rightarrow> real \<Rightarrow> int \<Rightarrow> int \<Rightarrow> canvas" where
  "drawTree s ctx startX startY len ang dep currentDepth =
     (let ctx = beginPath ctx;
          ctx = save ctx;
          ctx = translate startX startY ctx;
          windAngle =
            (if enableWind s
             then sin (time s * 0.002 + of_int currentDepth) * (of_int currentDepth * 0.5)
             else 0);
          ctx = rotate_ctx ((ang + windAngle) * Math_PI / 180) ctx;
          ctx = moveTo 0 0 ctx;
          drawnLen = len * min 1 (growth s * (of_int (depth (params s)) / 2));
          ctx = lineTo 0 (- drawnLen) ctx;
          hue = js_add (Fin 160)
                  (js_mul (js_div (Fin (of_int currentDepth)) (Fin (of_int (depth (params s)))))
                     (Fin 40));
          ctx = set_strokeStyle hue
                  (js_sub (Fin 40)
                     (js_mul (js_div (Fin (of_int currentDepth)) (Fin (of_int (depth (params s)))))
                        (Fin 10)))
                  ctx;
          ctx = set_lineWidth (max 0.5 (of_int (depth (params s) - currentDepth + 1) * 0.8)) ctx;
          ctx = stroke ctx
      in if dep < 1 then restore ctx
         else
           let nextLen = len * lengthMultiplier (params s);
               ctx = drawTree s ctx 0 (- drawnLen) nextLen (angle (params s)) (dep - 1)
                       (currentDepth + 1);
               ctx = drawTree s ctx 0 (- drawnLen) nextLen (- angle (params s)) (dep - 1)
                       (currentDepth + 1);
               ctx = (if 2 < branchCount (params s)
                      then drawTree s ctx 0 (- drawnLen) nextLen 0 (dep - 1) (currentDepth + 1)
                      else ctx)
           in restore ctx)"
  by pat_completeness auto
termination
  by (relation "measure (\<lambda>(s, ctx, startX, startY, len, ang, dep, currentDepth). nat dep)") auto

declare drawTree.simps [simp del]


text \<open>
  The calls of \<open>drawTree\<close> as a tree: each node holds the \<open>len\<close> argument of one call
  and the segment that call strokes, its subtrees are the calls it makes, in order.
  \<open>M\<close> and \<open>st\<close> are the transformation matrix and the stroke style of the canvas when
  the call starts.
\<close>

datatype calltree = Call (call_len: real) (call_segment: segment) (call_children: "calltree list")

function callTree ::
  "view \<Rightarrow> matrix \<Rightarrow> style \<Rightarrow> real \<Rightarrow> real \<Rightarrow> real \<Rightarrow> real \<Rightarrow> int \<Rightarrow> int \<Rightarrow> calltree" where
  "callTree s M st startX startY len ang dep currentDepth =
     (let windAngle =
            (if enableWind s
             then sin (time s * 0.002 + of_int currentDepth) * (of_int currentDepth * 0.5)
             else 0);
          M' = mat_rotate ((ang + windAngle) * Math_PI / 180) (mat_translate startX startY M);
          drawnLen = len * min 1 (growth s * (of_int (depth (params s)) / 2));
          ratio = js_div (Fin (of_int currentDepth)) (Fin (of_int (depth (params s))));
          st' = (case (js_add (Fin 160) (js_mul ratio (Fin 40)),
                       js_sub (Fin 40) (js_mul ratio (Fin 10))) of
                   (Fin hv, Fin lv) \<Rightarrow> Hsl hv 70 lv
                 | _ \<Rightarrow> st);
          nextLen = len * lengthMultiplier (params s)
      in Call len
           \<lparr> seg_start = transform_point M' (0, 0),
             seg_end = transform_point M' (0, - drawnLen),
             seg_style = st',
             seg_width = max 0.5 (of_int (depth (params s) - currentDepth + 1) * 0.8) \<rparr>
           (if dep < 1 then []
            else map (\<lambda>ang'. callTree s M' st' 0 (- drawnLen) nextLen ang' (dep - 1) (currentDepth + 1))
                   ([angle (params s), - angle (params s)] @
                    (if 2 < branchCount (params s) then [0] else []))))"
  by pat_completeness auto
termination
  by (relation "measure (\<lambda>(s, M, st, startX, startY, len, ang, dep, currentDepth). nat dep)") auto

declare callTree.simps [simp del]

fun preorder :: "calltree \<Rightarrow> calltree list" where
  "preorder (Call l sg ts) = Call l sg ts # concat (map preorder ts)"

text \<open>
  A call tree is connected when every child call's segment starts where the segment of
  its parent ends.
\<close>

fun connected :: "calltree \<Rightarrow> bool" where
  "connected (Call l sg ts) =
     (\<forall>t \<in> set ts. seg_start (call_segment t) = seg_end sg \<and> connected t)"

text \<open>
  The matrices \<open>drawTree\<close> works with stretch every length by one factor (rotations,
  translations and the uniform scaling by the device pixel ratio in \<open>renderFrame\<close>).
\<close>

definition conformal :: "matrix \<Rightarrow> bool" where
  "conformal M = (md M = ma M \<and> mc M = - mb M)"

definition stretch :: "matrix \<Rightarrow> real" where
  "stretch M = sqrt ((ma M)\<^sup>2 + (mb M)\<^sup>2)"

text \<open>
  \<open>renderFrame\<close> for a canvas of \<open>w\<close> by \<open>h\<close> CSS pixels: setting the canvas size resets
  the context, then the context is scaled by the device pixel ratio (1 when the ratio
  is 0) and the tree is drawn from the bottom centre.
\<close>

definition fresh_canvas :: canvas where
  "fresh_canvas =
     \<lparr> ctm = identity_matrix, strokeStyle = Default_style, lineWidth = 1, saved = [],
       path = [], display = [] \<rparr>"

definition renderFrame :: "view \<Rightarrow> real \<Rightarrow> real \<Rightarrow> real \<Rightarrow> segment list" where
  "renderFrame s w h devicePixelRatio =
     (let dpr = (if devicePixelRatio = 0 then 1 else devicePixelRatio);
          ctx = scale_ctx dpr dpr fresh_canvas;
          startLen = h * 0.25
      in display (drawTree s ctx (w / 2) h startLen 0 (depth (params s)) 0))"


section \<open>The animation loop and the controls\<close>

text \<open>
  One animation frame: \<open>animate\<close> draws with the state it closed over and schedules the
  updates of \<open>growth\<close> and \<open>time\<close> for the next render. \<open>now\<close> is \<^verbatim>\<open>Date.now()\<close>.
\<close>

definition animate :: "real \<Rightarrow> view \<Rightarrow> view" where
  "animate now s =
     s \<lparr> growth := (if isAnimating s \<and> growth s < 1 then min (growth s + 0.01) 1 else growth s),
         time := (if enableWind s then now else time s) \<rparr>"

definition resetAnimation :: "view \<Rightarrow> view" where
  "resetAnimation s = s \<lparr> growth := 0, isAnimating := True \<rparr>"

datatype event =
    Frame real
  | ToggleWind
  | Regrow
  | AngleChange real
  | DepthChange int
  | LengthChange real

text \<open>
  The handlers of the controls. The state updates of one handler are applied together
  before the next frame.
\<close>

fun handle :: "view \<Rightarrow> event \<Rightarrow> view" where
  "handle s (Frame now) = animate now s"
| "handle s ToggleWind = s \<lparr> enableWind := \<not> enableWind s \<rparr>"
| "handle s Regrow = resetAnimation s"
| "handle s (AngleChange v) = s \<lparr> params := (params s) \<lparr> angle := v \<rparr> \<rparr>"
| "handle s (DepthChange v) = s \<lparr> params := (params s) \<lparr> depth := v \<rparr>, growth := 0 \<rparr>"
| "handle s (LengthChange v) = s \<lparr> params := (params s) \<lparr> lengthMultiplier := v \<rparr> \<rparr>"

text \<open>
  The states that \<open>renderFrame\<close> draws while a sequence of events is handled: one per
  \<open>Frame\<close>, the state before that frame's updates.
\<close>

fun rendered :: "view \<Rightarrow> event list \<Rightarrow> view list" where
  "rendered s [] = []"
| "rendered s (Frame now # es) = s # rendered (handle s (Frame now)) es"
| "rendered s (e # es) = rendered (handle s e) es"

text \<open>
  A sequence of drawn states is free of stale growth when every state with a growth
  other than 0 has the depth of the last state before it drawn with growth 0 (\<open>since\<close>
  is that depth, \<open>None\<close> when no state was drawn with growth 0 so far).
\<close>

fun no_stale_growth :: "int option \<Rightarrow> view list \<Rightarrow> bool" where
  "no_stale_growth since [] = True"
| "no_stale_growth since (f # fs) =
     (if growth f = 0 then no_stale_growth (Some (depth (params f))) fs
      else since = Some (depth (params f)) \<and> no_stale_growth since fs)"

fun is_frame :: "event \<Rightarrow> bool" where
  "is_frame (Frame now) = True"
| "is_frame _ = False"


section \<open>Auxiliary notions\<close>


text \<open>
  The pieces of one call of \<open>drawTree\<close>: the wind offset, the drawn length, the matrix
  after \<^verbatim>\<open>translate\<close> and \<^verbatim>\<open>rotate\<close>, the style and the width set before
  \<^verbatim>\<open>stroke\<close>, the stroked segment, and the canvas right after \<^verbatim>\<open>stroke\<close>.
\<close>

definition wind_angle :: "view \<Rightarrow> int \<Rightarrow> real" where
  "wind_angle s currentDepth =
     (if enableWind s
      then sin (time s * 0.002 + of_int currentDepth) * (of_int currentDepth * 0.5)
      else 0)"

definition drawn_length :: "view \<Rightarrow> real \<Rightarrow> real" where
  "drawn_length s len = len * min 1 (growth s * (of_int (depth (params s)) / 2))"

definition branch_matrix :: "view \<Rightarrow> matrix \<Rightarrow> real \<Rightarrow> real \<Rightarrow> real \<Rightarrow> int \<Rightarrow> matrix" where
  "branch_matrix s M startX startY ang currentDepth =
     mat_rotate ((ang + wind_angle s currentDepth) * Math_PI / 180) (mat_translate startX startY M)"

definition branch_style :: "view \<Rightarrow> style \<Rightarrow> int \<Rightarrow> style" where
  "branch_style s st currentDepth =
     (case (js_add (Fin 160)
              (js_mul (js_div (Fin (of_int currentDepth)) (Fin (of_int (depth (params s))))) (Fin 40)),
            js_sub (Fin 40)
              (js_mul (js_div (Fin (of_int currentDepth)) (Fin (of_int (depth (params s))))) (Fin 10))) of
        (Fin hv, Fin lv) \<Rightarrow> Hsl hv 70 lv
      | _ \<Rightarrow> st)"

definition branch_width :: "view \<Rightarrow> int \<Rightarrow> real" where
  "branch_width s currentDepth = max 0.5 (of_int (depth (params s) - currentDepth + 1) * 0.8)"

definition branch_segment ::
  "view \<Rightarrow> matrix \<Rightarrow> style \<Rightarrow> real \<Rightarrow> real \<Rightarrow> real \<Rightarrow> real \<Rightarrow> int \<Rightarrow> segment" where
  "branch_segment s M st startX startY len ang currentDepth =
     \<lparr> seg_start = transform_point (branch_matrix s M startX startY ang currentDepth) (0, 0),
       seg_end = transform_point (branch_matrix s M startX startY ang currentDepth)
                   (0, - drawn_length s len),
       seg_style = branch_style s st currentDepth,
       seg_width = branch_width s currentDepth \<rparr>"

definition branch_canvas ::
  "view \<Rightarrow> canvas \<Rightarrow> real \<Rightarrow> real \<Rightarrow> real \<Rightarrow> real \<Rightarrow> int \<Rightarrow> canvas" where
  "branch_canvas s ctx startX startY len ang currentDepth =
     ctx \<lparr> ctm := branch_matrix s (ctm ctx) startX startY ang currentDepth,
           strokeStyle := branch_style s (strokeStyle ctx) currentDepth,
           lineWidth := branch_width s currentDepth,
           saved := (ctm ctx, strokeStyle ctx, lineWidth ctx) # saved ctx,
           path := [[transform_point (branch_matrix s (ctm ctx) startX startY ang currentDepth) (0, 0),
                     transform_point (branch_matrix s (ctm ctx) startX startY ang currentDepth)
                       (0, - drawn_length s len)]],
           display := display ctx @
             [branch_segment s (ctm ctx) (strokeStyle ctx) startX startY len ang currentDepth] \<rparr>"

text \<open>
  \<open>draws ctx ctx' sgs\<close>: the canvas \<open>ctx'\<close> is \<open>ctx\<close> with the segments \<open>sgs\<close> drawn, under
  the same matrix, style, width and saved states.
\<close>

definition draws :: "canvas \<Rightarrow> canvas \<Rightarrow> segment list \<Rightarrow> bool" where
  "draws ctx ctx' sgs =
     (ctm ctx' = ctm ctx \<and> strokeStyle ctx' = strokeStyle ctx \<and> lineWidth ctx' = lineWidth ctx \<and>
      saved ctx' = saved ctx \<and> display ctx' = display ctx @ sgs)"

definition segments_of :: "calltree \<Rightarrow> segment list" where
  "segments_of t = map call_segment (preorder t)"


section \<open>Sample count and sample angles\<close>

lemma overflow_limit_large: "10 ^ 6 < overflow_limit"
  by (simp add: overflow_limit_def)

lemma fl_range_finite: "\<bar>x\<bar> < overflow_limit \<Longrightarrow> fl_range x = Fin x"
  by (auto simp: fl_range_def)

lemma fl_range_moderate: "\<bar>x\<bar> \<le> 10 ^ 6 \<Longrightarrow> fl_range x = Fin x"
  using overflow_limit_large by (intro fl_range_finite) linarith


lemma Math_PI_bounds: "3 < Math_PI" "Math_PI < 4"
  by (simp_all add: Math_PI_def)

lemma calculatePoints_loop_eq:
  "calculatePoints_loop p i points =
     points @ map (\<lambda>j. point_at (radius p (sample_phi p j)) (sample_phi p j)) [i..resolution p]"
proof (induction p i points rule: calculatePoints_loop.induct)
  case (1 p i points)
  show ?case
  proof (cases "i \<le> resolution p")
    case True
    have "[i..resolution p] = i # [i + 1..resolution p]"
      using True by (simp add: upto_rec1)
    with True "1.IH" show ?thesis
      by (subst calculatePoints_loop.simps) (simp add: Let_def)
  next
    case False
    then show ?thesis
      by (subst calculatePoints_loop.simps) simp
  qed
qed

lemma calculatePoints_eq:
  "calculatePoints p =
     map (\<lambda>j. point_at (radius p (sample_phi p j)) (sample_phi p j)) [0..resolution p]"
  by (simp add: calculatePoints_def calculatePoints_loop_eq)

lemma sample_phi_finite:
  assumes "0 \<le> i" "i \<le> resolution p" "0 < resolution p"
  shows "sample_phi p i = Fin (of_int i * 2 * Math_PI / of_int (resolution p))"
proof -
  have "of_int i * 2 * Math_PI / of_int (resolution p) \<le> 1 * (2 * Math_PI)"
    using assms Math_PI_bounds by (simp add: divide_le_eq mult_right_mono)
  moreover have "0 \<le> of_int i * 2 * Math_PI / of_int (resolution p)"
    using assms Math_PI_bounds by simp
  ultimately have "\<bar>of_int i * 2 * Math_PI / of_int (resolution p)\<bar> \<le> 10 ^ 6"
    using Math_PI_bounds by simp
  then show ?thesis
    using assms(3) by (simp add: sample_phi_def fl_range_moderate)
qed

lemma calculatePoints_nth:
  assumes "0 \<le> i" "i \<le> resolution p"
  shows "calculatePoints p ! nat i = point_at (radius p (sample_phi p i)) (sample_phi p i)"
proof -
  have "nat i < length [0..resolution p]"
    using assms by simp
  moreover have "[0..resolution p] ! nat i = i"
    using assms by simp
  ultimately show ?thesis
    by (simp add: calculatePoints_eq)
qed

text \<open>
  C1. With \<open>resolution > 0\<close>, \<open>calculatePoints\<close> returns exactly \<open>resolution + 1\<close> points,
  in order of the sample index: the point at position \<open>i\<close> (for \<open>i\<close> from 0 to
  \<open>resolution\<close>) is the one computed at the angle \<open>phi = i * 2 * Math.PI / resolution\<close>.
\<close>

theorem calculatePoints_samples:
  assumes "0 < resolution p"
  shows "length (calculatePoints p) = nat (resolution p + 1) \<and>
         (\<forall>i. 0 \<le> i \<and> i \<le> resolution p \<longrightarrow>
            calculatePoints p ! nat i =
              point_at (radius p (Fin (of_int i * 2 * Math_PI / of_int (resolution p))))
                (Fin (of_int i * 2 * Math_PI / of_int (resolution p))))"
proof -
  have "length (calculatePoints p) = nat (resolution p + 1)"
    by (simp add: calculatePoints_eq)
  moreover have "calculatePoints p ! nat i =
      point_at (radius p (Fin (of_int i * 2 * Math_PI / of_int (resolution p))))
        (Fin (of_int i * 2 * Math_PI / of_int (resolution p)))"
    if "0 \<le> i \<and> i \<le> resolution p" for i
    using that assms calculatePoints_nth [of i p] sample_phi_finite [of i p] by simp
  ultimately show ?thesis by blast
qed

theorem calculatePoints_samples_witness:
  "0 < resolution \<lparr>m = 5, n1 = 1, n2 = 1, n3 = 1, a = 1, b = 1, resolution = 2\<rparr> \<and>
   length (calculatePoints \<lparr>m = 5, n1 = 1, n2 = 1, n3 = 1, a = 1, b = 1, resolution = 2\<rparr>) = 3 \<and>
   (0 \<le> (1::int) \<and> 1 \<le> resolution \<lparr>m = 5, n1 = 1, n2 = 1, n3 = 1, a = 1, b = 1, resolution = 2\<rparr>) \<and>
   calculatePoints \<lparr>m = 5, n1 = 1, n2 = 1, n3 = 1, a = 1, b = 1, resolution = 2\<rparr> ! 1 =
     point_at (radius \<lparr>m = 5, n1 = 1, n2 = 1, n3 = 1, a = 1, b = 1, resolution = 2\<rparr> (Fin Math_PI))
       (Fin Math_PI)"
proof -
  let ?p = "\<lparr>m = 5, n1 = 1, n2 = 1, n3 = 1, a = 1, b = 1, resolution = 2\<rparr>"
  have pos: "0 < resolution ?p" by simp
  have len: "length (calculatePoints ?p) = nat (resolution ?p + 1)"
    using calculatePoints_samples [OF pos] by (rule conjunct1)
  have "0 \<le> (1::int) \<and> 1 \<le> resolution ?p \<longrightarrow>
      calculatePoints ?p ! nat 1 =
        point_at (radius ?p (Fin (of_int 1 * 2 * Math_PI / of_int (resolution ?p))))
          (Fin (of_int 1 * 2 * Math_PI / of_int (resolution ?p)))"
    using calculatePoints_samples [OF pos] by blast
  then have "calculatePoints ?p ! 1 = point_at (radius ?p (Fin Math_PI)) (Fin Math_PI)"
    by simp
  with pos len show ?thesis by simp
qed


section \<open>Finite and bounded points\<close>














lemma first_point:
  assumes "0 < resolution p"
  shows "calculatePoints p ! 0 = point_at (radius p (Fin 0)) (Fin 0)"
  using calculatePoints_nth [of 0 p] sample_phi_finite [of 0 p] assms by simp








section \<open>The circle\<close>

text \<open>
  C7. With \<open>m = 0\<close>, \<open>n1 = n2 = n3 = 1\<close> and \<open>a = b = 1\<close> the radius computed by
  \<open>calculatePoints\<close> is 1 at every sample index, and the points lie on the circle of
  radius 150 (the scale) around \<open>(250, 250)\<close>.
\<close>

theorem circle_radius_constant:
  assumes "m p = 0" "n1 p = 1" "n2 p = 1" "n3 p = 1" "a p = 1" "b p = 1"
    and "0 < resolution p" "0 \<le> i" "i \<le> resolution p"
  shows "radius p (sample_phi p i) = Fin 1 \<and>
         calculatePoints p ! nat i =
           \<lparr> vx = Fin (250 + cos (of_int i * 2 * Math_PI / of_int (resolution p)) * 150),
             vy = Fin (250 + sin (of_int i * 2 * Math_PI / of_int (resolution p)) * 150) \<rparr>"
proof -
  have phi: "sample_phi p i = Fin (of_int i * 2 * Math_PI / of_int (resolution p))"
    using assms(7-9) by (simp add: sample_phi_finite)
  have r: "radius p (sample_phi p i) = Fin 1"
    using assms(1-6) by (simp add: phi radius_def Let_def fl_range_moderate)
  show ?thesis
    using calculatePoints_nth [OF assms(8,9)] r
    by (simp add: phi point_at_def scale_def)
qed

theorem circle_radius_constant_witness:
  "m \<lparr>m = 0, n1 = 1, n2 = 1, n3 = 1, a = 1, b = 1, resolution = 360\<rparr> = 0 \<and>
   n1 \<lparr>m = 0, n1 = 1, n2 = 1, n3 = 1, a = 1, b = 1, resolution = 360\<rparr> = 1 \<and>
   n2 \<lparr>m = 0, n1 = 1, n2 = 1, n3 = 1, a = 1, b = 1, resolution = 360\<rparr> = 1 \<and>
   n3 \<lparr>m = 0, n1 = 1, n2 = 1, n3 = 1, a = 1, b = 1, resolution = 360\<rparr> = 1 \<and>
   a \<lparr>m = 0, n1 = 1, n2 = 1, n3 = 1, a = 1, b = 1, resolution = 360\<rparr> = 1 \<and>
   b \<lparr>m = 0, n1 = 1, n2 = 1, n3 = 1, a = 1, b = 1, resolution = 360\<rparr> = 1 \<and>
   0 < resolution \<lparr>m = 0, n1 = 1, n2 = 1, n3 = 1, a = 1, b = 1, resolution = 360\<rparr> \<and>
   0 \<le> (90::int) \<and>
   90 \<le> resolution \<lparr>m = 0, n1 = 1, n2 = 1, n3 = 1, a = 1, b = 1, resolution = 360\<rparr> \<and>
   radius \<lparr>m = 0, n1 = 1, n2 = 1, n3 = 1, a = 1, b = 1, resolution = 360\<rparr>
     (sample_phi \<lparr>m = 0, n1 = 1, n2 = 1, n3 = 1, a = 1, b = 1, resolution = 360\<rparr> 90) = Fin 1 \<and>
   calculatePoints \<lparr>m = 0, n1 = 1, n2 = 1, n3 = 1, a = 1, b = 1, resolution = 360\<rparr> ! 90
     = \<lparr> vx = Fin (250 + cos (Math_PI / 2) * 150), vy = Fin (250 + sin (Math_PI / 2) * 150) \<rparr>"
proof -
  let ?p = "\<lparr>m = 0, n1 = 1, n2 = 1, n3 = 1, a = 1, b = 1, resolution = 360\<rparr>"
  have ang: "real_of_int 90 * 2 * Math_PI / real_of_int (resolution ?p) = Math_PI / 2"
    by simp
  have "radius ?p (sample_phi ?p 90) = Fin 1 \<and>
        calculatePoints ?p ! nat 90 =
          \<lparr> vx = Fin (250 + cos (of_int 90 * 2 * Math_PI / of_int (resolution ?p)) * 150),
            vy = Fin (250 + sin (of_int 90 * 2 * Math_PI / of_int (resolution ?p)) * 150) \<rparr>"
    by (rule circle_radius_constant) simp_all
  then have "radius ?p (sample_phi ?p 90) = Fin 1 \<and>
        calculatePoints ?p ! 90 =
          \<lparr> vx = Fin (250 + cos (Math_PI / 2) * 150), vy = Fin (250 + sin (Math_PI / 2) * 150) \<rparr>"
    unfolding ang by simp
  then show ?thesis by simp
qed


section \<open>Math.PI and pi\<close>

lemma arctan_partial_sums:
  fixes x :: real
  assumes "0 \<le> x" "x \<le> 1"
  shows "(\<Sum>k<2 * n. (- 1) ^ k * (1 / real (k * 2 + 1) * x ^ (k * 2 + 1))) \<le> arctan x"
    and "arctan x \<le> (\<Sum>k<2 * n + 1. (- 1) ^ k * (1 / real (k * 2 + 1) * x ^ (k * 2 + 1)))"
proof -
  let ?a = "\<lambda>k. 1 / real (k * 2 + 1) * x ^ (k * 2 + 1)"
  have ax: "\<bar>x\<bar> \<le> 1" using assms by simp
  have zero: "?a \<longlonglongrightarrow> 0"
    using ax by (rule zeroseq_arctan_series)
  have pos: "0 \<le> ?a k" for k
    using assms by simp
  have mono: "?a (Suc k) \<le> ?a k" for k
  proof -
    have "x ^ (Suc k * 2 + 1) \<le> x ^ (k * 2 + 1)"
      using assms by (intro power_decreasing) simp_all
    moreover have "1 / real (Suc k * 2 + 1) \<le> 1 / real (k * 2 + 1)"
      by (intro divide_left_mono) simp_all
    ultimately show ?thesis
      using assms by (intro mult_mono) simp_all
  qed
  have s: "arctan x = (\<Sum>k. (- 1) ^ k * ?a k)"
    using ax by (rule arctan_series)
  show "(\<Sum>k<2 * n. (- 1) ^ k * ?a k) \<le> arctan x"
    unfolding s using summable_Leibniz'(2) [of ?a, OF zero pos mono] .
  show "arctan x \<le> (\<Sum>k<2 * n + 1. (- 1) ^ k * ?a k)"
    unfolding s using summable_Leibniz'(4) [of ?a, OF zero pos mono] .
qed

lemma pi_lower: "3141592653589793216 / 10 ^ 18 < pi"
proof -
  have l: "(\<Sum>k<2 * 7. (- 1) ^ k * (1 / real (k * 2 + 1) * (1 / 5) ^ (k * 2 + 1))) \<le> arctan (1 / 5)"
    by (rule arctan_partial_sums) simp_all
  have u: "arctan (1 / 239) \<le> (\<Sum>k<2 * 1 + 1. (- 1) ^ k * (1 / real (k * 2 + 1) * (1 / 239) ^ (k * 2 + 1)))"
    by (rule arctan_partial_sums) simp_all
  have "pi = 16 * arctan (1 / 5) - 4 * arctan (1 / 239)"
    using machin by simp
  moreover have "3141592653589793216 / 10 ^ 18 <
      16 * (\<Sum>k<2 * 7. (- 1) ^ k * (1 / real (k * 2 + 1) * (1 / 5) ^ (k * 2 + 1)))
      - 4 * (\<Sum>k<2 * 1 + 1. (- 1) ^ k * (1 / real (k * 2 + 1) * (1 / 239) ^ (k * 2 + 1)))"
    by (simp add: lessThan_nat_numeral lessThan_Suc power_one_over divide_simps)
  ultimately show ?thesis
    using l u by linarith
qed

lemma pi_upper: "pi < 3141592653589793300 / 10 ^ 18"
proof -
  have u: "arctan (1 / 5) \<le> (\<Sum>k<2 * 7 + 1. (- 1) ^ k * (1 / real (k * 2 + 1) * (1 / 5) ^ (k * 2 + 1)))"
    by (rule arctan_partial_sums) simp_all
  have l: "(\<Sum>k<2 * 2. (- 1) ^ k * (1 / real (k * 2 + 1) * (1 / 239) ^ (k * 2 + 1))) \<le> arctan (1 / 239)"
    by (rule arctan_partial_sums) simp_all
  have "pi = 16 * arctan (1 / 5) - 4 * arctan (1 / 239)"
    using machin by simp
  moreover have "16 * (\<Sum>k<2 * 7 + 1. (- 1) ^ k * (1 / real (k * 2 + 1) * (1 / 5) ^ (k * 2 + 1)))
      - 4 * (\<Sum>k<2 * 2. (- 1) ^ k * (1 / real (k * 2 + 1) * (1 / 239) ^ (k * 2 + 1)))
      < 3141592653589793300 / 10 ^ 18"
    by (simp add: lessThan_nat_numeral lessThan_Suc power_one_over divide_simps)
  ultimately show ?thesis
    using l u by linarith
qed

text \<open>\<^verbatim>\<open>Math.PI\<close> lies below \<open>pi\<close>, by more than \<open>1 / 10 ^ 16\<close> and less than \<open>2 / 10 ^ 16\<close>.\<close>

lemma pi_gap: "1 / 10 ^ 16 < pi - Math_PI" "pi - Math_PI < 2 / 10 ^ 16"
proof -
  have "Math_PI < 3141592653589793116 / 10 ^ 18" "3141592653589793115 / 10 ^ 18 < Math_PI"
    by (simp_all add: Math_PI_def)
  then show "1 / 10 ^ 16 < pi - Math_PI" "pi - Math_PI < 2 / 10 ^ 16"
    using pi_lower pi_upper by simp_all
qed

lemma abs_trig_quarter_turns:
  fixes k :: int and x :: real
  shows "\<bar>cos (of_int k * (pi / 2) - x)\<bar> = (if even k then \<bar>cos x\<bar> else \<bar>sin x\<bar>)"
    and "\<bar>sin (of_int k * (pi / 2) - x)\<bar> = (if even k then \<bar>sin x\<bar> else \<bar>cos x\<bar>)"
proof -
  have shift_cos: "\<bar>cos (pi * of_int j + y)\<bar> = \<bar>cos y\<bar>" for j :: int and y :: real
    by (simp add: cos_add)
  have shift_sin: "\<bar>sin (pi * of_int j + y)\<bar> = \<bar>sin y\<bar>" for j :: int and y :: real
    by (simp add: sin_add)
  have c: "cos (pi / 2 - x) = sin x"
    using sin_cos_eq [of x] by simp
  have s: "sin (pi / 2 - x) = cos x"
    using cos_sin_eq [of x] by simp
  show "\<bar>cos (of_int k * (pi / 2) - x)\<bar> = (if even k then \<bar>cos x\<bar> else \<bar>sin x\<bar>)"
  proof (cases "even k")
    case True
    then obtain j where k: "k = 2 * j" by (elim evenE)
    have eq: "of_int k * (pi / 2) - x = pi * of_int j + (- x)"
      by (simp add: k)
    show ?thesis
      unfolding eq using True shift_cos [of j "- x"] by simp
  next
    case False
    then obtain j where k: "k = 2 * j + 1" by (elim oddE)
    have eq: "of_int k * (pi / 2) - x = pi * of_int j + (pi / 2 - x)"
      by (simp add: k algebra_simps)
    show ?thesis
      unfolding eq using False shift_cos [of j "pi / 2 - x"] by (simp add: c)
  qed
  show "\<bar>sin (of_int k * (pi / 2) - x)\<bar> = (if even k then \<bar>sin x\<bar> else \<bar>cos x\<bar>)"
  proof (cases "even k")
    case True
    then obtain j where k: "k = 2 * j" by (elim evenE)
    have eq: "of_int k * (pi / 2) - x = pi * of_int j + (- x)"
      by (simp add: k)
    show ?thesis
      unfolding eq using True shift_sin [of j "- x"] by simp
  next
    case False
    then obtain j where k: "k = 2 * j + 1" by (elim oddE)
    have eq: "of_int k * (pi / 2) - x = pi * of_int j + (pi / 2 - x)"
      by (simp add: k algebra_simps)
    show ?thesis
      unfolding eq using False shift_sin [of j "pi / 2 - x"] by (simp add: s)
  qed
qed

text \<open>Sine and cosine of a small angle.\<close>

lemma small_angle:
  fixes x :: real
  assumes "0 \<le> x" "x \<le> 1"
  shows "0 \<le> sin x" "sin x \<le> x" "x / 2 \<le> sin x" "1 - x\<^sup>2 / 2 \<le> cos x" "cos x \<le> 1" "0 < cos x"
proof -
  have x_pi: "x < pi / 2"
    using assms pi_lower by simp
  show "0 \<le> sin x"
    using assms x_pi by (intro sin_ge_zero) simp_all
  show "sin x \<le> x"
    using assms(1) by (rule sin_x_le_x)
  have "\<bar>sin x - (\<Sum>j<3. sin_coeff j * x ^ j)\<bar> \<le> inverse (fact 3) * \<bar>x\<bar> ^ 3"
    by (rule Maclaurin_sin_bound)
  moreover have "(\<Sum>j<3. sin_coeff j * x ^ j) = x"
    by (simp add: lessThan_nat_numeral lessThan_Suc sin_coeff_def)
  ultimately have "\<bar>sin x - x\<bar> \<le> x ^ 3 / 6"
    using assms(1) by (simp add: fact_numeral)
  then have "x - x ^ 3 / 6 \<le> sin x"
    by linarith
  moreover have "x ^ 3 \<le> x"
    using assms power_decreasing [of 1 3 x] by simp
  ultimately show "x / 2 \<le> sin x"
    using assms(1) by linarith
  have "cos x = 1 - 2 * (sin (x / 2))\<^sup>2"
    using cos_double_sin [of "x / 2"] by simp
  moreover have "(sin (x / 2))\<^sup>2 \<le> (x / 2)\<^sup>2"
    using abs_le_square_iff [of "sin (x / 2)" "x / 2"] abs_sin_x_le_abs_x [of "x / 2"] by blast
  ultimately show "1 - x\<^sup>2 / 2 \<le> cos x"
    by (simp add: power_divide)
  show "cos x \<le> 1"
    by simp
  show "0 < cos x"
    using assms x_pi by (intro cos_gt_zero_pi) simp_all
qed


section \<open>Closure of the curve\<close>

lemma js_pow_nonneg:
  "0 \<le> x \<Longrightarrow> 0 < e \<Longrightarrow> js_pow (Fin x) (Fin e) = Fin (x powr e)"
  by simp

lemma js_pow_pos:
  "0 < x \<Longrightarrow> e \<noteq> 0 \<Longrightarrow> js_pow (Fin x) (Fin e) = Fin (x powr e)"
  by simp

text \<open>The radius for \<open>a = 1\<close>, \<open>b \<ge> 1\<close>, positive exponents and \<open>n1\<close> from 0.1 on.\<close>

lemma radius_unit_a:
  assumes "a p = 1" "1 \<le> b p" "0 < n2 p" "0 < n3 p" "1 / 10 \<le> n1 p" "\<bar>m p * t\<bar> \<le> 10 ^ 6"
  shows "radius p (Fin t) =
    (let s = \<bar>cos (m p * t / 4)\<bar> powr n2 p + (\<bar>sin (m p * t / 4)\<bar> / b p) powr n3 p
     in if 0 < s then (if 20 < s powr (- 1 / n1 p) then Fin 20 else Fin (s powr (- 1 / n1 p)))
        else Fin 0)"
proof -
  let ?u = "m p * t / 4"
  have arg: "js_div (js_mul (Fin (m p)) (Fin t)) (Fin 4) = Fin ?u"
    using assms(6) by (simp add: fl_range_moderate)
  have c: "js_abs (js_div (js_cos (Fin ?u)) (Fin (a p))) = Fin \<bar>cos ?u\<bar>"
  proof -
    have "\<bar>cos ?u\<bar> \<le> 10 ^ 6"
      by (rule order_trans [OF abs_cos_le_one]) simp
    then show ?thesis
      using assms(1) by (simp add: fl_range_moderate)
  qed
  have s: "js_abs (js_div (js_sin (Fin ?u)) (Fin (b p))) = Fin (\<bar>sin ?u\<bar> / b p)"
  proof -
    have "\<bar>sin ?u\<bar> \<le> b p"
      using assms(2) abs_sin_le_one [of ?u] by linarith
    then have "\<bar>sin ?u / b p\<bar> \<le> 1"
      using assms(2) by (simp add: divide_le_eq)
    then have "\<bar>sin ?u / b p\<bar> \<le> 10 ^ 6"
      by (rule order_trans) simp
    then show ?thesis
      using assms(2) by (simp add: fl_range_moderate)
  qed
  have t1: "js_pow (Fin \<bar>cos ?u\<bar>) (Fin (n2 p)) = Fin (\<bar>cos ?u\<bar> powr n2 p)"
    using assms(3) by (intro js_pow_nonneg) simp_all
  have t2: "js_pow (Fin (\<bar>sin ?u\<bar> / b p)) (Fin (n3 p)) = Fin ((\<bar>sin ?u\<bar> / b p) powr n3 p)"
    using assms(2,4) by (intro js_pow_nonneg) simp_all
  have e: "js_div (Fin (- 1)) (Fin (n1 p)) = Fin (- 1 / n1 p)"
  proof -
    have "1 / n1 p \<le> 1 / (1 / 10)"
      using assms(5) by (intro divide_left_mono) simp_all
    then have "\<bar>- 1 / n1 p\<bar> \<le> 10 ^ 6"
      using assms(5) by simp
    then show ?thesis
      using assms(5) by (simp add: fl_range_moderate)
  qed
  have ne: "- 1 / n1 p \<noteq> 0"
    using assms(5) by simp
  let ?s = "\<bar>cos ?u\<bar> powr n2 p + (\<bar>sin ?u\<bar> / b p) powr n3 p"
  have nonneg: "0 \<le> ?s"
    by simp
  have r: "(if js_gt (js_abs (Fin ?s)) (Fin 0) then js_pow (Fin ?s) (Fin (- 1 / n1 p)) else Fin 0) =
      (if 0 < ?s then Fin (?s powr (- 1 / n1 p)) else Fin 0)"
    using nonneg ne by (simp del: js_pow.simps add: js_pow_pos)
  show ?thesis
    unfolding radius_def arg c s t1 t2 e Let_def js_add.simps(1) r
    by simp
qed

lemma Math_PI_turns:
  "m * (2 * Math_PI) / 4 = m * (pi / 2) - m * (pi - Math_PI) / 2" for m :: real
  by (simp add: field_simps)

lemma Math_PI_full_turn:
  "cos (2 * Math_PI) = cos (2 * (pi - Math_PI))" "sin (2 * Math_PI) = - sin (2 * (pi - Math_PI))"
proof -
  have "2 * Math_PI = 2 * pi - 2 * (pi - Math_PI)"
    by simp
  then show "cos (2 * Math_PI) = cos (2 * (pi - Math_PI))"
    "sin (2 * Math_PI) = - sin (2 * (pi - Math_PI))"
    by (simp_all only: cos_2pi_minus sin_2pi_minus)
qed

lemma powr_sum_near_one:
  fixes x na nb :: real
  assumes "0 \<le> x" "x \<le> 2 / 10 ^ 15" "1 \<le> na" "na \<le> 20" "1 \<le> nb"
  shows "1 - 1 / 10 ^ 28 \<le> cos x powr na + sin x powr nb"
    and "cos x powr na + sin x powr nb \<le> 1 + 2 / 10 ^ 15"
proof -
  have x1: "x \<le> 1"
    using assms(2) by simp
  note sa = small_angle [OF assms(1) x1]
  have "x\<^sup>2 \<le> (2 / 10 ^ 15)\<^sup>2"
    using assms(1,2) by (intro power_mono) simp_all
  also have "(2 / 10 ^ 15 :: real)\<^sup>2 = 4 / 10 ^ 30"
    by (simp add: power_divide)
  finally have c_lo: "1 - 2 / 10 ^ 30 \<le> cos x"
    using sa(4) by linarith
  have "1 + real 20 * (- (2 / 10 ^ 30)) \<le> (1 + (- (2 / 10 ^ 30))) ^ 20"
    by (rule Bernoulli_inequality) simp
  also have "\<dots> \<le> cos x ^ 20"
    using c_lo by (intro power_mono) simp_all
  also have "\<dots> = cos x powr 20"
    using sa(6) by (simp add: powr_numeral)
  also have "\<dots> \<le> cos x powr na"
    using assms(4) sa(5,6) by (intro powr_mono') simp_all
  finally have big_lo: "1 - 1 / 10 ^ 28 \<le> cos x powr na"
    by simp
  have big_hi: "cos x powr na \<le> 1"
    using assms(3) sa(5,6) by (intro powr_le1) simp_all
  have "sin x powr nb \<le> sin x powr 1"
    using assms(5) sa(1,2) x1 by (intro powr_mono') simp_all
  then have small_hi: "sin x powr nb \<le> 2 / 10 ^ 15"
    using sa(1,2) assms(2) by simp
  have small_lo: "0 \<le> sin x powr nb"
    by simp
  show "1 - 1 / 10 ^ 28 \<le> cos x powr na + sin x powr nb"
    using big_lo small_lo by linarith
  show "cos x powr na + sin x powr nb \<le> 1 + 2 / 10 ^ 15"
    using big_hi small_hi by linarith
qed

lemma radius_near_one:
  fixes s n :: real
  assumes "1 - 1 / 10 ^ 28 \<le> s" "s \<le> 1 + 2 / 10 ^ 15" "1 / 10 \<le> n"
  shows "1 - 3 / 10 ^ 14 \<le> s powr (- 1 / n)" "s powr (- 1 / n) \<le> 1 + 1 / 10 ^ 26"
proof -
  let ?q = "1 / n"
  have q: "0 \<le> ?q" "?q \<le> 10"
  proof -
    show "0 \<le> ?q" using assms(3) by simp
    have "1 / n \<le> 1 / (1 / 10)"
      using assms(3) by (intro divide_left_mono) simp_all
    then show "?q \<le> 10" by simp
  qed
  have spos: "0 < s"
    using assms(1) by simp
  have eq: "- 1 / n = - ?q"
    by simp
  let ?hi = "1 + 2 / 10 ^ 15 :: real"
  let ?lo = "1 - 1 / 10 ^ 28 :: real"
  have "(1 - 3 / 10 ^ 14) * ?hi ^ 10 \<le> 1"
    by (simp add: power_divide field_simps)
  then have "1 - 3 / 10 ^ 14 \<le> inverse (?hi ^ 10)"
    by (simp add: field_simps)
  also have "inverse (?hi ^ 10) = ?hi powr (- 10)"
    by (simp add: powr_minus powr_numeral)
  also have "\<dots> \<le> ?hi powr (- ?q)"
    using q by (intro powr_mono) simp_all
  also have "\<dots> \<le> s powr (- ?q)"
    using q(1) spos assms(2) by (intro powr_mono2') simp_all
  finally show "1 - 3 / 10 ^ 14 \<le> s powr (- 1 / n)"
    unfolding eq .
  have "s powr (- ?q) \<le> ?lo powr (- ?q)"
    using q(1) assms(1) by (intro powr_mono2') simp_all
  also have "\<dots> \<le> ?lo powr (- 10)"
    using q by (intro powr_mono') simp_all
  also have "\<dots> = inverse (?lo ^ 10)"
    by (simp add: powr_minus powr_numeral)
  also have "\<dots> \<le> 1 + 1 / 10 ^ 26"
  proof -
    have "1 \<le> (1 + 1 / 10 ^ 26) * ?lo ^ 10"
      by (simp add: power_divide field_simps)
    then show ?thesis
      by (simp add: field_simps)
  qed
  finally show "s powr (- 1 / n) \<le> 1 + 1 / 10 ^ 26"
    unfolding eq .
qed


lemma last_point:
  assumes "0 < resolution p"
  shows "calculatePoints p ! nat (resolution p) =
         point_at (radius p (Fin (2 * Math_PI))) (Fin (2 * Math_PI))"
  using calculatePoints_nth [of "resolution p" p] sample_phi_finite [of "resolution p" p] assms
  by simp

lemma point_at_finite:
  "point_at (Fin r) (Fin t) = \<lparr> vx = Fin (250 + r * cos t * 150), vy = Fin (250 + r * sin t * 150) \<rparr>"
  by (simp add: point_at_def scale_def)

lemma chain_half:
  fixes x u v w :: real
  assumes "x \<le> u" "u / 2 \<le> v" "1 - x / 2 \<le> w"
  shows "1 - v \<le> w"
  using assms by linarith

lemma abs_near_one:
  fixes y l h e :: real
  assumes "l \<le> y" "1 - e \<le> l" "y \<le> h" "h \<le> 1 + e"
  shows "\<bar>y - 1\<bar> \<le> e"
  using assms by linarith

lemma gap_angle:
  fixes c :: real
  assumes "0 \<le> c" "c \<le> 10"
  shows "0 \<le> c * (pi - Math_PI)" "c * (pi - Math_PI) \<le> 2 / 10 ^ 15" "c * (pi - Math_PI) \<le> 1"
proof -
  show "0 \<le> c * (pi - Math_PI)"
    using assms(1) pi_gap(1) by simp
  have "c * (pi - Math_PI) \<le> 10 * (2 / 10 ^ 16)"
    using assms pi_gap by (intro mult_mono) simp_all
  then show "c * (pi - Math_PI) \<le> 2 / 10 ^ 15"
    by simp
  then show "c * (pi - Math_PI) \<le> 1"
    by simp
qed

lemma full_turn_bounds:
  "1 - 1 / 10 ^ 30 \<le> cos (2 * Math_PI)" "cos (2 * Math_PI) \<le> 1"
  "- (4 / 10 ^ 16) \<le> sin (2 * Math_PI)" "sin (2 * Math_PI) \<le> 0"
proof -
  let ?x = "2 * (pi - Math_PI)"
  have g: "0 \<le> ?x" "?x \<le> 1"
    using gap_angle [of 2] by simp_all
  note sa = small_angle [OF g]
  have "?x \<le> 4 / 10 ^ 16"
    using pi_gap(2) by simp
  then have "?x\<^sup>2 \<le> (4 / 10 ^ 16)\<^sup>2"
    using g(1) by (intro power_mono) simp_all
  also have "(4 / 10 ^ 16 :: real)\<^sup>2 = 16 / 10 ^ 32"
    by (simp add: power_divide)
  finally have "?x\<^sup>2 \<le> 16 / 10 ^ 32" .
  moreover have "(16 / 10 ^ 32 :: real) / 2 \<le> 1 / 10 ^ 30"
    by simp
  ultimately show "1 - 1 / 10 ^ 30 \<le> cos (2 * Math_PI)"
    unfolding Math_PI_full_turn using sa(4) by (rule chain_half)
  show "cos (2 * Math_PI) \<le> 1"
    by simp
  show "- (4 / 10 ^ 16) \<le> sin (2 * Math_PI)"
    using sa(2) \<open>?x \<le> 4 / 10 ^ 16\<close> unfolding Math_PI_full_turn by linarith
  show "sin (2 * Math_PI) \<le> 0"
    using sa(1) unfolding Math_PI_full_turn by linarith
qed

text \<open>
  The radius at the closing sample for the parameters of the sliders with shape
  exponents from 1 on.
\<close>

lemma closing_radius:
  assumes "a p = 1" "b p = 1" "m p = of_int k" "0 \<le> k" "k \<le> 20"
    and "1 / 10 \<le> n1 p" "1 \<le> n2 p" "n2 p \<le> 20" "1 \<le> n3 p" "n3 p \<le> 20"
  shows "\<exists>r. radius p (Fin (2 * Math_PI)) = Fin r \<and> 1 - 3 / 10 ^ 14 \<le> r \<and> r \<le> 1 + 1 / 10 ^ 26"
proof -
  let ?x = "of_int k / 2 * (pi - Math_PI)"
  let ?u = "m p * (2 * Math_PI) / 4"
  have kr: "0 \<le> (of_int k :: real) / 2" "(of_int k :: real) / 2 \<le> 10"
    using assms(4,5) by simp_all
  note g = gap_angle [OF kr]
  note sa = small_angle [OF g(1) g(3)]
  have u: "?u = of_int k * (pi / 2) - ?x"
    using Math_PI_turns [of "of_int k"] by (simp add: assms(3))
  have c: "\<bar>cos ?u\<bar> = (if even k then cos ?x else sin ?x)"
    unfolding u abs_trig_quarter_turns using sa(1,6) by simp
  have s: "\<bar>sin ?u\<bar> = (if even k then sin ?x else cos ?x)"
    unfolding u abs_trig_quarter_turns using sa(1,6) by simp
  let ?s = "\<bar>cos ?u\<bar> powr n2 p + (\<bar>sin ?u\<bar> / b p) powr n3 p"
  have s_eq: "?s = (if even k then cos ?x powr n2 p + sin ?x powr n3 p
                    else cos ?x powr n3 p + sin ?x powr n2 p)"
    unfolding c s assms(2) by simp
  have s_bounds: "1 - 1 / 10 ^ 28 \<le> ?s \<and> ?s \<le> 1 + 2 / 10 ^ 15"
  proof (cases "even k")
    case True
    then show ?thesis
      unfolding s_eq using powr_sum_near_one [OF g(1,2) assms(7,8,9)] by simp
  next
    case False
    then show ?thesis
      unfolding s_eq using powr_sum_near_one [OF g(1,2) assms(9,10,7)] by simp
  qed
  then have r_bounds: "1 - 3 / 10 ^ 14 \<le> ?s powr (- 1 / n1 p)" "?s powr (- 1 / n1 p) \<le> 1 + 1 / 10 ^ 26"
    using radius_near_one [of ?s "n1 p"] assms(6) by simp_all
  have "(0::real) < 1 - 1 / 10 ^ 28"
    by simp
  then have spos: "0 < ?s"
    using s_bounds by linarith
  have small: "\<not> 20 < ?s powr (- 1 / n1 p)"
    using r_bounds(2) by simp
  have "\<bar>m p * (2 * Math_PI)\<bar> \<le> 10 ^ 6"
  proof -
    have "of_int k * (2 * Math_PI) \<le> 20 * (2 * 4)"
      using assms(4,5) Math_PI_bounds by (intro mult_mono) simp_all
    moreover have "0 \<le> of_int k * (2 * Math_PI)"
      using assms(4) Math_PI_bounds by simp
    ultimately show ?thesis
      by (simp add: assms(3))
  qed
  then have "radius p (Fin (2 * Math_PI)) = Fin (?s powr (- 1 / n1 p))"
    using radius_unit_a [of p "2 * Math_PI"] assms(1,2,6,7,9) spos small
    by (simp add: Let_def)
  with r_bounds show ?thesis
    by blast
qed

lemma opening_radius:
  assumes "a p = 1" "1 \<le> b p" "0 < n2 p" "0 < n3 p" "1 / 10 \<le> n1 p"
  shows "radius p (Fin 0) = Fin 1"
  using radius_unit_a [of p 0] assms by (simp add: Let_def)

text \<open>
  C6, amended. For \<open>resolution > 0\<close>, \<open>a = b = 1\<close>, \<open>m\<close> an integer from 0 to 20, \<open>n1\<close> at
  least 0.1 and \<open>n2\<close>, \<open>n3\<close> from 1 to 20 (the ranges of the sliders, with the shape
  exponents at least 1), the points at \<open>i = 0\<close> and \<open>i = resolution\<close> are the same up to
  floating tolerance: the first is \<open>(400, 250)\<close> and each coordinate of the last is within
  \<open>1 / 10 ^ 9\<close> of it.
\<close>

theorem curve_closed:
  assumes "0 < resolution p" "a p = 1" "b p = 1" "m p = of_int k" "0 \<le> k" "k \<le> 20"
    and "1 / 10 \<le> n1 p" "1 \<le> n2 p" "n2 p \<le> 20" "1 \<le> n3 p" "n3 p \<le> 20"
  shows "\<exists>x y. calculatePoints p ! 0 = \<lparr> vx = Fin 400, vy = Fin 250 \<rparr> \<and>
           calculatePoints p ! nat (resolution p) = \<lparr> vx = Fin x, vy = Fin y \<rparr> \<and>
           \<bar>x - 400\<bar> \<le> 1 / 10 ^ 9 \<and> \<bar>y - 250\<bar> \<le> 1 / 10 ^ 9"
proof -
  have r0: "radius p (Fin 0) = Fin 1"
    using assms by (intro opening_radius) simp_all
  have first: "calculatePoints p ! 0 = \<lparr> vx = Fin 400, vy = Fin 250 \<rparr>"
    using first_point [OF assms(1)] by (simp add: r0 point_at_finite)
  obtain r where r: "radius p (Fin (2 * Math_PI)) = Fin r" "1 - 3 / 10 ^ 14 \<le> r" "r \<le> 1 + 1 / 10 ^ 26"
    using closing_radius [OF assms(2-11)] by blast
  let ?c = "cos (2 * Math_PI)"
  let ?s = "sin (2 * Math_PI)"
  note ft = full_turn_bounds
  have last: "calculatePoints p ! nat (resolution p) =
      \<lparr> vx = Fin (250 + r * ?c * 150), vy = Fin (250 + r * ?s * 150) \<rparr>"
    using last_point [OF assms(1)] by (simp add: r(1) point_at_finite)
  have rpos: "0 \<le> r" "r \<le> 2"
    using r(2,3) by simp_all
  have cpos: "0 \<le> ?c"
    using ft(1) by simp
  have "(1 - 3 / 10 ^ 14) * (1 - 1 / 10 ^ 30) \<le> r * ?c"
    using r(2) ft(1) by (intro mult_mono) simp_all
  moreover have "(1 - 4 / 10 ^ 14 :: real) \<le> (1 - 3 / 10 ^ 14) * (1 - 1 / 10 ^ 30)"
    by simp
  moreover have "r * ?c \<le> (1 + 1 / 10 ^ 26) * 1"
    using r(3) rpos cpos ft(2) by (intro mult_mono) simp_all
  moreover have "((1 + 1 / 10 ^ 26) * 1 :: real) \<le> 1 + 4 / 10 ^ 14"
    by simp
  ultimately have "\<bar>r * ?c - 1\<bar> \<le> 4 / 10 ^ 14"
    by (rule abs_near_one)
  then have "150 * \<bar>r * ?c - 1\<bar> \<le> 150 * (4 / 10 ^ 14)"
    by (intro mult_left_mono) simp_all
  moreover have "\<bar>(250 + r * ?c * 150) - 400\<bar> = 150 * \<bar>r * ?c - 1\<bar>"
    by (simp add: abs_if)
  moreover have "(150 * (4 / 10 ^ 14) :: real) \<le> 1 / 10 ^ 9"
    by simp
  ultimately have xb: "\<bar>(250 + r * ?c * 150) - 400\<bar> \<le> 1 / 10 ^ 9"
    by linarith
  have "r * (- ?s) \<le> 2 * (4 / 10 ^ 16)"
    using rpos ft(3,4) by (intro mult_mono) simp_all
  moreover have "0 \<le> r * (- ?s)"
    using rpos ft(4) by (intro mult_nonneg_nonneg) simp_all
  ultimately have "\<bar>r * ?s\<bar> \<le> 2 * (4 / 10 ^ 16)"
    by simp
  then have "150 * \<bar>r * ?s\<bar> \<le> 150 * (2 * (4 / 10 ^ 16))"
    by (intro mult_left_mono) simp_all
  moreover have "\<bar>(250 + r * ?s * 150) - 250\<bar> = 150 * \<bar>r * ?s\<bar>"
    by (simp add: abs_mult)
  moreover have "(150 * (2 * (4 / 10 ^ 16)) :: real) \<le> 1 / 10 ^ 9"
    by simp
  ultimately have yb: "\<bar>(250 + r * ?s * 150) - 250\<bar> \<le> 1 / 10 ^ 9"
    by linarith
  from first last xb yb show ?thesis
    by blast
qed


lemma tenth_root_small: "1 / 50 \<le> x powr (1 / 10)" if "1 / 10 ^ 16 / 2 \<le> x" for x :: real
proof -
  have "((1 / 50) powr 10) powr (1 / 10) = (1 / 50 :: real) powr 1"
    by (simp only: powr_powr) simp
  then have "(1 / 50 :: real) = ((1 / 50) ^ 10) powr (1 / 10)"
    by (simp add: powr_numeral)
  also have "\<dots> \<le> x powr (1 / 10)"
  proof (rule powr_mono2)
    show "((1 / 50) ^ 10 :: real) \<le> x"
    proof (rule order_trans [OF _ that])
      show "((1 / 50) ^ 10 :: real) \<le> 1 / 10 ^ 16 / 2"
        by (simp add: power_divide)
    qed
  qed simp_all
  finally show ?thesis .
qed

lemma half_mono:
  fixes x y c :: real
  assumes "x / 2 \<le> y" "c < x"
  shows "c / 2 \<le> y"
  using assms by linarith

lemma even_residue:
  "\<exists>r. radius \<lparr>m = 2, n1 = 1 / 10, n2 = 1 / 10, n3 = 1 / 10, a = 1, b = 1, resolution = 360\<rparr>
     (Fin (2 * Math_PI)) = Fin r \<and> 0 < r \<and> r \<le> 91 / 100"
proof -
  let ?p = "\<lparr>m = 2, n1 = 1 / 10, n2 = 1 / 10, n3 = 1 / 10, a = 1, b = 1, resolution = 360\<rparr>"
  let ?d = "pi - Math_PI"
  have g: "0 \<le> ?d" "?d \<le> 1"
    using gap_angle [of 1] by simp_all
  note sa = small_angle [OF g]
  have u: "m ?p * (2 * Math_PI) / 4 = of_int 2 * (pi / 2) - ?d"
    by simp
  have c: "\<bar>cos (m ?p * (2 * Math_PI) / 4)\<bar> = cos ?d"
    unfolding u abs_trig_quarter_turns using sa(6) by simp
  have s: "\<bar>sin (m ?p * (2 * Math_PI) / 4)\<bar> = sin ?d"
    unfolding u abs_trig_quarter_turns using sa(1) by simp
  let ?s = "cos ?d powr (1 / 10) + sin ?d powr (1 / 10)"
  have "?d\<^sup>2 \<le> 1\<^sup>2"
    using g by (intro power_mono) simp_all
  have "cos ?d powr 1 \<le> cos ?d powr (1 / 10)"
    using sa(5,6) by (intro powr_mono') simp_all
  then have t1: "cos ?d \<le> cos ?d powr (1 / 10)"
    using sa(6) by simp
  have "?d\<^sup>2 \<le> (2 / 10 ^ 16)\<^sup>2"
    using g(1) pi_gap(2) by (intro power_mono) simp_all
  also have "(2 / 10 ^ 16 :: real)\<^sup>2 \<le> 1 / 100"
    by (simp add: power_divide)
  finally have "?d\<^sup>2 \<le> 1 / 100" .
  then have cl: "99 / 100 \<le> cos ?d"
    using sa(4) by linarith
  have "1 / 10 ^ 16 / 2 \<le> sin ?d"
    using sa(3) pi_gap(1) by (rule half_mono)
  then have t2: "1 / 50 \<le> sin ?d powr (1 / 10)"
    by (rule tenth_root_small)
  have s_lo: "101 / 100 \<le> ?s"
    using t1 cl t2 by linarith
  then have spos: "0 < ?s"
    by linarith
  have "?s powr (- 10) \<le> (101 / 100) powr (- 10)"
    using s_lo by (intro powr_mono2') simp_all
  also have "(101 / 100 :: real) powr (- 10) = inverse ((101 / 100) ^ 10)"
    by (simp add: powr_minus powr_numeral)
  also have "\<dots> \<le> 91 / 100"
  proof -
    have "(1 :: real) \<le> 91 / 100 * (101 / 100) ^ 10"
      by (simp add: power_divide)
    then show ?thesis
      by (simp add: field_simps)
  qed
  finally have r_hi: "?s powr (- 10) \<le> 91 / 100" .
  have r_lo: "0 < ?s powr (- 10)"
    using spos by simp
  have "\<bar>m ?p * (2 * Math_PI)\<bar> \<le> 10 ^ 6"
    using Math_PI_bounds by simp
  then have "radius ?p (Fin (2 * Math_PI)) =
      (let s = \<bar>cos (m ?p * (2 * Math_PI) / 4)\<bar> powr n2 ?p
             + (\<bar>sin (m ?p * (2 * Math_PI) / 4)\<bar> / b ?p) powr n3 ?p
       in if 0 < s then (if 20 < s powr (- 1 / n1 ?p) then Fin 20 else Fin (s powr (- 1 / n1 ?p)))
          else Fin 0)"
    by (intro radius_unit_a) simp_all
  also have "\<dots> = Fin (?s powr (- 10))"
    unfolding c s using spos r_hi by (simp add: Let_def)
  finally have "radius ?p (Fin (2 * Math_PI)) = Fin (?s powr (- 10))" .
  with r_lo r_hi show ?thesis
    by blast
qed

lemma odd_residue:
  "\<exists>r. radius \<lparr>m = 1, n1 = 1, n2 = 1, n3 = 1, a = 1, b = 2, resolution = 360\<rparr>
     (Fin (2 * Math_PI)) = Fin r \<and> 19 / 10 \<le> r \<and> r \<le> 21 / 10"
proof -
  let ?p = "\<lparr>m = 1, n1 = 1, n2 = 1, n3 = 1, a = 1, b = 2, resolution = 360\<rparr>"
  let ?x = "1 / 2 * (pi - Math_PI)"
  have g: "0 \<le> ?x" "?x \<le> 1" "?x \<le> 2 / 10 ^ 15"
    using gap_angle [of "1 / 2"] by simp_all
  note sa = small_angle [OF g(1,2)]
  have u: "m ?p * (2 * Math_PI) / 4 = of_int 1 * (pi / 2) - ?x"
    by (simp add: field_simps)
  have c: "\<bar>cos (m ?p * (2 * Math_PI) / 4)\<bar> = sin ?x"
    unfolding u abs_trig_quarter_turns using sa(1) by simp
  have s: "\<bar>sin (m ?p * (2 * Math_PI) / 4)\<bar> = cos ?x"
    unfolding u abs_trig_quarter_turns using sa(6) by simp
  let ?s = "sin ?x + cos ?x / 2"
  have "?x\<^sup>2 \<le> 1\<^sup>2"
    using g by (intro power_mono) simp_all
  then have "?x\<^sup>2 \<le> 1"
    by simp
  have "(2 / 10 ^ 15 :: real) \<le> 1 / 100"
    by simp
  then have x_small: "?x \<le> 1 / 100"
    using g(3) by (rule order_trans [rotated])
  have "?x\<^sup>2 \<le> (1 / 100)\<^sup>2"
    using g(1) x_small by (intro power_mono) simp_all
  then have "?x\<^sup>2 \<le> 1 / 100"
    by (simp add: power_divide)
  then have cl: "99 / 100 \<le> cos ?x"
    using sa(4) by linarith
  have s_lo: "49 / 100 \<le> ?s"
    using cl sa(1) by linarith
  have s_hi: "?s \<le> 51 / 100"
    using sa(2,5) x_small by linarith
  have spos: "0 < ?s"
    using s_lo by linarith
  have "?s powr (- 1) \<le> (49 / 100) powr (- 1)"
    using s_lo by (intro powr_mono2') simp_all
  also have "(49 / 100 :: real) powr (- 1) \<le> 21 / 10"
    by (simp add: powr_minus)
  finally have r_hi: "?s powr (- 1) \<le> 21 / 10" .
  have "(19 / 10 :: real) \<le> (51 / 100) powr (- 1)"
    by (simp add: powr_minus)
  also have "\<dots> \<le> ?s powr (- 1)"
    using spos s_hi by (intro powr_mono2') simp_all
  finally have r_lo: "19 / 10 \<le> ?s powr (- 1)" .
  have "\<bar>m ?p * (2 * Math_PI)\<bar> \<le> 10 ^ 6"
    using Math_PI_bounds by simp
  then have "radius ?p (Fin (2 * Math_PI)) =
      (let s = \<bar>cos (m ?p * (2 * Math_PI) / 4)\<bar> powr n2 ?p
             + (\<bar>sin (m ?p * (2 * Math_PI) / 4)\<bar> / b ?p) powr n3 ?p
       in if 0 < s then (if 20 < s powr (- 1 / n1 ?p) then Fin 20 else Fin (s powr (- 1 / n1 ?p)))
          else Fin 0)"
    by (intro radius_unit_a) simp_all
  also have "\<dots> = Fin (?s powr (- 1))"
    unfolding c s using spos r_hi sa(1,6) by (simp add: Let_def)
  finally have "radius ?p (Fin (2 * Math_PI)) = Fin (?s powr (- 1))" .
  with r_lo r_hi show ?thesis
    by blast
qed

text \<open>
  C6, as stated, fails, in two ways. With \<open>m = 1\<close>, \<open>a = 1\<close>, \<open>b = 2\<close> and all exponents 1
  the first point is \<open>(400, 250)\<close> and the last one lies beyond \<open>x = 500\<close>: the formula
  itself does not close over one turn. With \<open>m = 2\<close>, \<open>a = b = 1\<close> and all exponents 0.1,
  which the sliders can set, the first point is \<open>(400, 250)\<close> and the last one lies
  before \<open>x = 390\<close>: at the closing sample \<^verbatim>\<open>Math.sin\<close> is taken at \<^verbatim>\<open>Math.PI\<close>, where it is
  about \<open>1.2 / 10 ^ 16\<close> and not 0, and the exponent 0.1 turns that into more than 0.02.
\<close>

theorem curve_not_closed:
  "calculatePoints \<lparr>m = 1, n1 = 1, n2 = 1, n3 = 1, a = 1, b = 2, resolution = 360\<rparr> ! 0
     = \<lparr> vx = Fin 400, vy = Fin 250 \<rparr> \<and>
   js_gt (vx (calculatePoints \<lparr>m = 1, n1 = 1, n2 = 1, n3 = 1, a = 1, b = 2, resolution = 360\<rparr> ! 360))
     (Fin 500) \<and>
   js_gt (Fin 600)
     (vx (calculatePoints \<lparr>m = 1, n1 = 1, n2 = 1, n3 = 1, a = 1, b = 2, resolution = 360\<rparr> ! 360)) \<and>
   calculatePoints \<lparr>m = 2, n1 = 1 / 10, n2 = 1 / 10, n3 = 1 / 10, a = 1, b = 1, resolution = 360\<rparr> ! 0
     = \<lparr> vx = Fin 400, vy = Fin 250 \<rparr> \<and>
   js_gt (Fin 390)
     (vx (calculatePoints
        \<lparr>m = 2, n1 = 1 / 10, n2 = 1 / 10, n3 = 1 / 10, a = 1, b = 1, resolution = 360\<rparr> ! 360)) \<and>
   js_gt
     (vx (calculatePoints
        \<lparr>m = 2, n1 = 1 / 10, n2 = 1 / 10, n3 = 1 / 10, a = 1, b = 1, resolution = 360\<rparr> ! 360))
     (Fin 250)"
proof -
  let ?p = "\<lparr>m = 1, n1 = 1, n2 = 1, n3 = 1, a = 1, b = 2, resolution = 360\<rparr>"
  let ?q = "\<lparr>m = 2, n1 = 1 / 10, n2 = 1 / 10, n3 = 1 / 10, a = 1, b = 1, resolution = 360\<rparr>"
  let ?c = "cos (2 * Math_PI)"
  note ft = full_turn_bounds
  have c_lo: "99 / 100 \<le> ?c"
  proof (rule order_trans [OF _ ft(1)])
    show "(99 / 100 :: real) \<le> 1 - 1 / 10 ^ 30" by simp
  qed
  have p0: "calculatePoints ?p ! 0 = \<lparr> vx = Fin 400, vy = Fin 250 \<rparr>"
    using first_point [of ?p] opening_radius [of ?p] by (simp add: point_at_finite)
  have q0: "calculatePoints ?q ! 0 = \<lparr> vx = Fin 400, vy = Fin 250 \<rparr>"
    using first_point [of ?q] opening_radius [of ?q] by (simp add: point_at_finite)
  obtain r where r: "radius ?p (Fin (2 * Math_PI)) = Fin r" "19 / 10 \<le> r" "r \<le> 21 / 10"
    using odd_residue by blast
  have p1: "vx (calculatePoints ?p ! 360) = Fin (250 + r * ?c * 150)"
    using last_point [of ?p] by (simp add: r(1) point_at_finite)
  have "19 / 10 * (99 / 100) \<le> r * ?c"
    using r(2) c_lo by (intro mult_mono) simp_all
  then have p_lo: "500 < 250 + r * ?c * 150"
    by simp
  have "r * ?c \<le> 21 / 10 * 1"
    using r(2,3) c_lo ft(2) by (intro mult_mono) simp_all
  then have p_hi: "250 + r * ?c * 150 < 600"
    by simp
  obtain t where t: "radius ?q (Fin (2 * Math_PI)) = Fin t" "0 < t" "t \<le> 91 / 100"
    using even_residue by blast
  have q1: "vx (calculatePoints ?q ! 360) = Fin (250 + t * ?c * 150)"
    using last_point [of ?q] by (simp add: t(1) point_at_finite)
  have "0 < t * ?c"
    using t(2) c_lo by (intro mult_pos_pos) simp_all
  then have q_lo: "250 < 250 + t * ?c * 150"
    by simp
  have "t * ?c \<le> 91 / 100 * 1"
    using t(2,3) c_lo ft(2) by (intro mult_mono) simp_all
  then have q_hi: "250 + t * ?c * 150 < 390"
    by simp
  show ?thesis
    unfolding p1 q1 using p0 q0 p_lo p_hi q_lo q_hi by simp
qed

theorem curve_closed_witness:
  "0 < resolution \<lparr>m = 4, n1 = 10, n2 = 10, n3 = 10, a = 1, b = 1, resolution = 360\<rparr> \<and>
   a \<lparr>m = 4, n1 = 10, n2 = 10, n3 = 10, a = 1, b = 1, resolution = 360\<rparr> = 1 \<and>
   b \<lparr>m = 4, n1 = 10, n2 = 10, n3 = 10, a = 1, b = 1, resolution = 360\<rparr> = 1 \<and>
   m \<lparr>m = 4, n1 = 10, n2 = 10, n3 = 10, a = 1, b = 1, resolution = 360\<rparr> = of_int 4 \<and>
   (0::int) \<le> 4 \<and> (4::int) \<le> 20 \<and>
   1 / 10 \<le> n1 \<lparr>m = 4, n1 = 10, n2 = 10, n3 = 10, a = 1, b = 1, resolution = 360\<rparr> \<and>
   1 \<le> n2 \<lparr>m = 4, n1 = 10, n2 = 10, n3 = 10, a = 1, b = 1, resolution = 360\<rparr> \<and>
   n2 \<lparr>m = 4, n1 = 10, n2 = 10, n3 = 10, a = 1, b = 1, resolution = 360\<rparr> \<le> 20 \<and>
   1 \<le> n3 \<lparr>m = 4, n1 = 10, n2 = 10, n3 = 10, a = 1, b = 1, resolution = 360\<rparr> \<and>
   n3 \<lparr>m = 4, n1 = 10, n2 = 10, n3 = 10, a = 1, b = 1, resolution = 360\<rparr> \<le> 20 \<and>
   (\<exists>x y. calculatePoints \<lparr>m = 4, n1 = 10, n2 = 10, n3 = 10, a = 1, b = 1, resolution = 360\<rparr> ! 0
            = \<lparr> vx = Fin 400, vy = Fin 250 \<rparr> \<and>
          calculatePoints \<lparr>m = 4, n1 = 10, n2 = 10, n3 = 10, a = 1, b = 1, resolution = 360\<rparr> ! 360
            = \<lparr> vx = Fin x, vy = Fin y \<rparr> \<and>
          \<bar>x - 400\<bar> \<le> 1 / 10 ^ 9 \<and> \<bar>y - 250\<bar> \<le> 1 / 10 ^ 9)"
proof -
  let ?p = "\<lparr>m = 4, n1 = 10, n2 = 10, n3 = 10, a = 1, b = 1, resolution = 360\<rparr>"
  have "\<exists>x y. calculatePoints ?p ! 0 = \<lparr> vx = Fin 400, vy = Fin 250 \<rparr> \<and>
          calculatePoints ?p ! nat (resolution ?p) = \<lparr> vx = Fin x, vy = Fin y \<rparr> \<and>
          \<bar>x - 400\<bar> \<le> 1 / 10 ^ 9 \<and> \<bar>y - 250\<bar> \<le> 1 / 10 ^ 9"
    by (rule curve_closed [of ?p 4]) simp_all
  then show ?thesis
    by simp
qed


section \<open>Randomize within bounds\<close>

lemma toFixed1_bounds:
  assumes "0 \<le> x" "of_int l \<le> x * 10" "x * 10 \<le> of_int h"
  shows "of_int l / 10 \<le> toFixed1 x \<and> toFixed1 x \<le> of_int h / 10"
proof -
  have "l \<le> \<lfloor>x * 10 + 1 / 2\<rfloor>"
    using assms(2) by (simp add: le_floor_iff)
  moreover have "\<lfloor>x * 10 + 1 / 2\<rfloor> \<le> h"
    using assms(3) by (simp add: floor_le_iff)
  ultimately have "of_int l \<le> (of_int \<lfloor>x * 10 + 1 / 2\<rfloor> :: real)"
    "(of_int \<lfloor>x * 10 + 1 / 2\<rfloor> :: real) \<le> of_int h"
    by simp_all
  then show ?thesis
    using assms(1) by (simp add: toFixed1_def divide_right_mono)
qed

text \<open>
  C8. Whatever the four draws of \<^verbatim>\<open>Math.random()\<close> (each at least 0 and below 1),
  \<open>handleRandomize\<close> sets \<open>m\<close> to an integer from 2 to 17, \<open>n1\<close> within \<open>[0.1, 10.1]\<close>,
  \<open>n2\<close> and \<open>n3\<close> within \<open>[0.1, 5.1]\<close>, \<open>a = b = 1\<close> and \<open>resolution = 360\<close>.
\<close>

theorem handleRandomize_bounds:
  assumes "0 \<le> u1" "u1 < 1" "0 \<le> u2" "u2 < 1" "0 \<le> u3" "u3 < 1" "0 \<le> u4" "u4 < 1"
  shows "(\<exists>k::int. m (handleRandomize u1 u2 u3 u4) = of_int k \<and> 2 \<le> k \<and> k \<le> 17) \<and>
         0.1 \<le> n1 (handleRandomize u1 u2 u3 u4) \<and> n1 (handleRandomize u1 u2 u3 u4) \<le> 10.1 \<and>
         0.1 \<le> n2 (handleRandomize u1 u2 u3 u4) \<and> n2 (handleRandomize u1 u2 u3 u4) \<le> 5.1 \<and>
         0.1 \<le> n3 (handleRandomize u1 u2 u3 u4) \<and> n3 (handleRandomize u1 u2 u3 u4) \<le> 5.1 \<and>
         a (handleRandomize u1 u2 u3 u4) = 1 \<and> b (handleRandomize u1 u2 u3 u4) = 1 \<and>
         resolution (handleRandomize u1 u2 u3 u4) = 360"
proof -
  have "0 \<le> \<lfloor>u1 * 16\<rfloor>" "\<lfloor>u1 * 16\<rfloor> \<le> 15"
    using assms(1,2) by (simp_all add: floor_le_iff)
  then have mm: "\<exists>k::int. m (handleRandomize u1 u2 u3 u4) = of_int k \<and> 2 \<le> k \<and> k \<le> 17"
    by (intro exI [of _ "\<lfloor>u1 * 16\<rfloor> + 2"]) (simp add: handleRandomize_def)
  have b1: "of_int 1 / 10 \<le> toFixed1 (u2 * 10 + 0.1) \<and> toFixed1 (u2 * 10 + 0.1) \<le> of_int 101 / 10"
    using assms(3,4) by (intro toFixed1_bounds) simp_all
  have b2: "of_int 1 / 10 \<le> toFixed1 (u3 * 5 + 0.1) \<and> toFixed1 (u3 * 5 + 0.1) \<le> of_int 51 / 10"
    using assms(5,6) by (intro toFixed1_bounds) simp_all
  have b3: "of_int 1 / 10 \<le> toFixed1 (u4 * 5 + 0.1) \<and> toFixed1 (u4 * 5 + 0.1) \<le> of_int 51 / 10"
    using assms(7,8) by (intro toFixed1_bounds) simp_all
  from mm b1 b2 b3 show ?thesis
    by (simp add: handleRandomize_def)
qed

theorem handleRandomize_bounds_witness:
  "(0 \<le> (0.5::real) \<and> (0.5::real) < 1 \<and> 0 \<le> (0.25::real) \<and> (0.25::real) < 1 \<and>
    0 \<le> (0.5::real) \<and> (0.5::real) < 1 \<and> 0 \<le> (0::real) \<and> (0::real) < 1) \<and>
   handleRandomize 0.5 0.25 0.5 0 =
     \<lparr>m = 10, n1 = 2.6, n2 = 2.6, n3 = 0.1, a = 1, b = 1, resolution = 360\<rparr> \<and>
   (\<exists>k::int. m (handleRandomize 0.5 0.25 0.5 0) = of_int k \<and> 2 \<le> k \<and> k \<le> 17) \<and>
   0.1 \<le> n1 (handleRandomize 0.5 0.25 0.5 0) \<and> n1 (handleRandomize 0.5 0.25 0.5 0) \<le> 10.1 \<and>
   0.1 \<le> n2 (handleRandomize 0.5 0.25 0.5 0) \<and> n2 (handleRandomize 0.5 0.25 0.5 0) \<le> 5.1 \<and>
   0.1 \<le> n3 (handleRandomize 0.5 0.25 0.5 0) \<and> n3 (handleRandomize 0.5 0.25 0.5 0) \<le> 5.1 \<and>
   a (handleRandomize 0.5 0.25 0.5 0) = 1 \<and> b (handleRandomize 0.5 0.25 0.5 0) = 1 \<and>
   resolution (handleRandomize 0.5 0.25 0.5 0) = 360"
proof -
  have v: "handleRandomize 0.5 0.25 0.5 0 =
     \<lparr>m = 10, n1 = 2.6, n2 = 2.6, n3 = 0.1, a = 1, b = 1, resolution = 360\<rparr>"
    by (simp add: handleRandomize_def toFixed1_def)
  have "(\<exists>k::int. m (handleRandomize 0.5 0.25 0.5 0) = of_int k \<and> 2 \<le> k \<and> k \<le> 17) \<and>
   0.1 \<le> n1 (handleRandomize 0.5 0.25 0.5 0) \<and> n1 (handleRandomize 0.5 0.25 0.5 0) \<le> 10.1 \<and>
   0.1 \<le> n2 (handleRandomize 0.5 0.25 0.5 0) \<and> n2 (handleRandomize 0.5 0.25 0.5 0) \<le> 5.1 \<and>
   0.1 \<le> n3 (handleRandomize 0.5 0.25 0.5 0) \<and> n3 (handleRandomize 0.5 0.25 0.5 0) \<le> 5.1 \<and>
   a (handleRandomize 0.5 0.25 0.5 0) = 1 \<and> b (handleRandomize 0.5 0.25 0.5 0) = 1 \<and>
   resolution (handleRandomize 0.5 0.25 0.5 0) = 360"
    by (rule handleRandomize_bounds) simp_all
  with v show ?thesis by simp
qed


section \<open>The drawing of drawTree is its call tree\<close>

lemma branch_width_pos: "0 < branch_width s cd"
  by (simp add: branch_width_def max_def)

lemma set_strokeStyle_eq:
  "set_strokeStyle h l ctx =
     ctx \<lparr> strokeStyle := (case (h, l) of (Fin hv, Fin lv) \<Rightarrow> Hsl hv 70 lv | _ \<Rightarrow> strokeStyle ctx) \<rparr>"
  by (cases h; cases l) (simp_all add: set_strokeStyle_def)

lemma stroke_one_line:
  assumes "0 < w"
  shows "stroke (set_lineWidth w (set_strokeStyle h l (lineTo 0 (- L) (moveTo 0 0
           (rotate_ctx t (translate x y (save (beginPath ctx))))))))
     = ctx \<lparr> ctm := mat_rotate t (mat_translate x y (ctm ctx)),
             strokeStyle := (case (h, l) of (Fin hv, Fin lv) \<Rightarrow> Hsl hv 70 lv | _ \<Rightarrow> strokeStyle ctx),
             lineWidth := w,
             saved := (ctm ctx, strokeStyle ctx, lineWidth ctx) # saved ctx,
             path := [[transform_point (mat_rotate t (mat_translate x y (ctm ctx))) (0, 0),
                       transform_point (mat_rotate t (mat_translate x y (ctm ctx))) (0, - L)]],
             display := display ctx @
               [\<lparr> seg_start = transform_point (mat_rotate t (mat_translate x y (ctm ctx))) (0, 0),
                  seg_end = transform_point (mat_rotate t (mat_translate x y (ctm ctx))) (0, - L),
                  seg_style = (case (h, l) of (Fin hv, Fin lv) \<Rightarrow> Hsl hv 70 lv | _ \<Rightarrow> strokeStyle ctx),
                  seg_width = w \<rparr>] \<rparr>"
  using assms unfolding set_strokeStyle_eq
  by (cases h; cases l)
    (simp_all add: stroke_def set_lineWidth_def lineTo_def moveTo_def rotate_ctx_def translate_def
      save_def beginPath_def subpath_segments_def)

lemma drawTree_unfold:
  "drawTree s ctx startX startY len ang dep currentDepth =
     (if dep < 1 then restore (branch_canvas s ctx startX startY len ang currentDepth)
      else
        let c1 = drawTree s (branch_canvas s ctx startX startY len ang currentDepth) 0
                   (- drawn_length s len) (len * lengthMultiplier (params s))
                   (angle (params s)) (dep - 1) (currentDepth + 1);
            c2 = drawTree s c1 0 (- drawn_length s len) (len * lengthMultiplier (params s))
                   (- angle (params s)) (dep - 1) (currentDepth + 1);
            c3 = (if 2 < branchCount (params s)
                  then drawTree s c2 0 (- drawn_length s len) (len * lengthMultiplier (params s))
                         0 (dep - 1) (currentDepth + 1)
                  else c2)
        in restore c3)"
proof -
  have pre: "stroke (set_lineWidth (max 0.5 (of_int (depth (params s) - currentDepth + 1) * 0.8))
       (set_strokeStyle
          (js_add (Fin 160)
             (js_mul (js_div (Fin (of_int currentDepth)) (Fin (of_int (depth (params s))))) (Fin 40)))
          (js_sub (Fin 40)
             (js_mul (js_div (Fin (of_int currentDepth)) (Fin (of_int (depth (params s))))) (Fin 10)))
          (lineTo 0 (- drawn_length s len)
             (moveTo 0 0
                (rotate_ctx ((ang + (if enableWind s
                       then sin (time s * 0.002 + of_int currentDepth) * (of_int currentDepth * 0.5)
                       else 0)) * Math_PI / 180)
                   (translate startX startY (save (beginPath ctx))))))))
     = branch_canvas s ctx startX startY len ang currentDepth"
    unfolding branch_canvas_def branch_segment_def branch_matrix_def branch_style_def
      wind_angle_def drawn_length_def branch_width_def
    by (rule stroke_one_line) (simp add: max_def)
  show ?thesis
    by (subst drawTree.simps) (simp only: Let_def pre drawn_length_def [symmetric])
qed

lemma callTree_unfold:
  "callTree s M st startX startY len ang dep currentDepth =
     Call len (branch_segment s M st startX startY len ang currentDepth)
       (if dep < 1 then []
        else map (\<lambda>ang'. callTree s (branch_matrix s M startX startY ang currentDepth)
                          (branch_style s st currentDepth) 0 (- drawn_length s len)
                          (len * lengthMultiplier (params s)) ang' (dep - 1) (currentDepth + 1))
               ([angle (params s), - angle (params s)] @
                (if 2 < branchCount (params s) then [0] else [])))"
  by (subst callTree.simps)
    (simp only: Let_def branch_segment_def branch_matrix_def branch_style_def branch_width_def
      wind_angle_def drawn_length_def)

lemma draws_restore:
  assumes "draws (branch_canvas s ctx x y len ang cd) c sgs"
  shows "draws ctx (restore c) (branch_segment s (ctm ctx) (strokeStyle ctx) x y len ang cd # sgs)"
  using assms by (simp add: draws_def restore_def branch_canvas_def)

lemma draws_refl: "draws c c []"
  by (simp add: draws_def)

lemma draws_trans:
  "draws c0 c1 xs \<Longrightarrow> draws c1 c2 ys \<Longrightarrow> draws c0 c2 (xs @ ys)"
  by (simp add: draws_def)

lemma branch_canvas_ctm:
  "ctm (branch_canvas s ctx x y len ang cd) = branch_matrix s (ctm ctx) x y ang cd"
  "strokeStyle (branch_canvas s ctx x y len ang cd) = branch_style s (strokeStyle ctx) cd"
  by (simp_all add: branch_canvas_def)

lemma drawTree_draws_aux:
  "nat dep = n \<Longrightarrow>
   draws ctx (drawTree s ctx x y len ang dep cd)
     (segments_of (callTree s (ctm ctx) (strokeStyle ctx) x y len ang dep cd))"
proof (induction n arbitrary: ctx x y len ang dep cd)
  case 0
  then have d: "dep < 1" by simp
  have "draws ctx (restore (branch_canvas s ctx x y len ang cd))
          (branch_segment s (ctm ctx) (strokeStyle ctx) x y len ang cd # [])"
    by (rule draws_restore) (rule draws_refl)
  with d show ?case
    by (subst drawTree_unfold, subst callTree_unfold) (simp add: segments_of_def)
next
  case (Suc n)
  then have d: "\<not> dep < 1" and n: "nat (dep - 1) = n" by simp_all
  let ?c0 = "branch_canvas s ctx x y len ang cd"
  let ?M = "branch_matrix s (ctm ctx) x y ang cd"
  let ?st = "branch_style s (strokeStyle ctx) cd"
  let ?L = "- drawn_length s len"
  let ?nl = "len * lengthMultiplier (params s)"
  let ?c1 = "drawTree s ?c0 0 ?L ?nl (angle (params s)) (dep - 1) (cd + 1)"
  let ?c2 = "drawTree s ?c1 0 ?L ?nl (- angle (params s)) (dep - 1) (cd + 1)"
  let ?c3 = "if 2 < branchCount (params s) then drawTree s ?c2 0 ?L ?nl 0 (dep - 1) (cd + 1) else ?c2"
  let ?t = "\<lambda>ang'. callTree s ?M ?st 0 ?L ?nl ang' (dep - 1) (cd + 1)"
  have 1: "draws ?c0 ?c1 (segments_of (?t (angle (params s))))"
    using Suc.IH [OF n, of ?c0 0 ?L ?nl "angle (params s)" "cd + 1"]
    by (simp only: branch_canvas_ctm)
  then have e1: "ctm ?c1 = ?M" "strokeStyle ?c1 = ?st"
    by (simp_all add: draws_def branch_canvas_ctm)
  have 2: "draws ?c1 ?c2 (segments_of (?t (- angle (params s))))"
    using Suc.IH [OF n, of ?c1 0 ?L ?nl "- angle (params s)" "cd + 1"]
    by (simp only: e1)
  then have e2: "ctm ?c2 = ?M" "strokeStyle ?c2 = ?st"
    by (simp_all add: draws_def e1)
  have 3: "draws ?c2 ?c3
             (if 2 < branchCount (params s) then segments_of (?t 0) else [])"
    using Suc.IH [OF n, of ?c2 0 ?L ?nl 0 "cd + 1"]
    by (simp add: e2 draws_refl)
  have "draws ?c0 ?c3 (segments_of (?t (angle (params s))) @ segments_of (?t (- angle (params s))) @
          (if 2 < branchCount (params s) then segments_of (?t 0) else []))"
    using draws_trans [OF 1 draws_trans [OF 2 3]] .
  then have "draws ctx (restore ?c3)
      (branch_segment s (ctm ctx) (strokeStyle ctx) x y len ang cd #
        (segments_of (?t (angle (params s))) @ segments_of (?t (- angle (params s))) @
          (if 2 < branchCount (params s) then segments_of (?t 0) else [])))"
    by (rule draws_restore)
  moreover have "drawTree s ctx x y len ang dep cd = restore ?c3"
    using d by (subst drawTree_unfold) (simp only: Let_def if_False)
  moreover have "segments_of (callTree s (ctm ctx) (strokeStyle ctx) x y len ang dep cd) =
      branch_segment s (ctm ctx) (strokeStyle ctx) x y len ang cd #
        (segments_of (?t (angle (params s))) @ segments_of (?t (- angle (params s))) @
          (if 2 < branchCount (params s) then segments_of (?t 0) else []))"
    using d by (subst callTree_unfold) (simp add: segments_of_def)
  ultimately show ?case
    by simp
qed

lemma drawTree_draws:
  "draws ctx (drawTree s ctx x y len ang dep cd)
     (segments_of (callTree s (ctm ctx) (strokeStyle ctx) x y len ang dep cd))"
  by (rule drawTree_draws_aux) (rule refl)

lemma drawTree_display:
  "display (drawTree s ctx x y len ang d cd) =
     display ctx @ map call_segment (preorder (callTree s (ctm ctx) (strokeStyle ctx) x y len ang d cd))"
  using drawTree_draws [of ctx s x y len ang d cd] by (simp add: draws_def segments_of_def)

lemma call_children_callTree:
  "call_children (callTree s M st x y len ang dep cd) =
     (if dep < 1 then []
      else map (\<lambda>ang'. callTree s (branch_matrix s M x y ang cd) (branch_style s st cd) 0
                        (- drawn_length s len) (len * lengthMultiplier (params s)) ang'
                        (dep - 1) (cd + 1))
             ([angle (params s), - angle (params s)] @
              (if 2 < branchCount (params s) then [0] else [])))"
  using arg_cong [OF callTree_unfold [of s M st x y len ang dep cd], of call_children] by simp

lemma call_segment_callTree:
  "call_segment (callTree s M st x y len ang dep cd) = branch_segment s M st x y len ang cd"
  using arg_cong [OF callTree_unfold [of s M st x y len ang dep cd], of call_segment] by simp

lemma call_len_callTree:
  "call_len (callTree s M st x y len ang dep cd) = len"
  using arg_cong [OF callTree_unfold [of s M st x y len ang dep cd], of call_len] by simp

lemma preorder_children: "preorder t = t # concat (map preorder (call_children t))"
  by (cases t) simp

lemma connected_children:
  "connected t = (\<forall>u \<in> set (call_children t).
      seg_start (call_segment u) = seg_end (call_segment t) \<and> connected u)"
  by (cases t) simp

lemma root_in_preorder: "t \<in> set (preorder t)"
  by (subst preorder_children) simp


section \<open>Number of segments\<close>

lemma callTree_count_aux:
  "nat dep = n \<Longrightarrow>
   (if 2 < branchCount (params s)
    then 2 * length (preorder (callTree s M st x y len ang dep cd)) + 1 = 3 ^ (n + 1)
    else length (preorder (callTree s M st x y len ang dep cd)) + 1 = 2 ^ (n + 1))"
proof (induction n arbitrary: M st x y len ang dep cd)
  case 0
  then have "dep < 1" by simp
  then show ?case
    by (subst (1 2) preorder_children) (simp add: call_children_callTree)
next
  case (Suc n)
  then have d: "\<not> dep < 1" and n: "nat (dep - 1) = n" by simp_all
  let ?t = "\<lambda>ang'. callTree s (branch_matrix s M x y ang cd) (branch_style s st cd) 0
                (- drawn_length s len) (len * lengthMultiplier (params s)) ang' (dep - 1) (cd + 1)"
  let ?k = "\<lambda>ang'. length (preorder (?t ang'))"
  have whole: "length (preorder (callTree s M st x y len ang dep cd)) =
      1 + ?k (angle (params s)) + ?k (- angle (params s)) +
      (if 2 < branchCount (params s) then ?k 0 else 0)"
    using d by (subst preorder_children) (simp add: call_children_callTree)
  show ?case
  proof (cases "2 < branchCount (params s)")
    case True
    then have "2 * ?k ang' + 1 = 3 ^ (n + 1)" for ang'
      using Suc.IH [OF n] by simp
    from this [of "angle (params s)"] this [of "- angle (params s)"] this [of 0]
    show ?thesis
      using True by (simp add: whole)
  next
    case False
    then have "?k ang' + 1 = 2 ^ (n + 1)" for ang'
      using Suc.IH [OF n] by simp
    from this [of "angle (params s)"] this [of "- angle (params s)"]
    show ?thesis
      using False by (simp add: whole)
  qed
qed

lemma callTree_count:
  assumes "0 \<le> dep"
  shows "int (length (preorder (callTree s M st x y len ang dep cd))) =
     (if 2 < branchCount (params s) then (3 ^ nat (dep + 1) - 1) div 2 else 2 ^ nat (dep + 1) - 1)"
proof -
  have n: "nat (dep + 1) = nat dep + 1"
    using assms by simp
  let ?k = "length (preorder (callTree s M st x y len ang dep cd))"
  show ?thesis
  proof (cases "2 < branchCount (params s)")
    case True
    then have "2 * ?k + 1 = 3 ^ (nat dep + 1)"
      using callTree_count_aux [OF refl, where s = s and dep = dep] by simp
    then have "int (2 * ?k + 1) = int (3 ^ (nat dep + 1))"
      by (rule arg_cong)
    then have "2 * int ?k + 1 = 3 ^ (nat dep + 1)"
      by simp
    then show ?thesis
      using True by (simp add: n)
  next
    case False
    then have "?k + 1 = 2 ^ (nat dep + 1)"
      using callTree_count_aux [OF refl, where s = s and dep = dep] by simp
    then have "int (?k + 1) = int (2 ^ (nat dep + 1))"
      by (rule arg_cong)
    then have "int ?k + 1 = 2 ^ (nat dep + 1)"
      by simp
    then show ?thesis
      using False by (simp add: n)
  qed
qed

text \<open>
  C3. Called with remaining depth \<open>d \<ge> 0\<close>, \<open>drawTree\<close> adds to the canvas exactly
  \<open>2 ^ (d + 1) - 1\<close> segments when \<open>branchCount = 2\<close> and exactly \<open>(3 ^ (d + 1) - 1) / 2\<close>
  segments when \<open>branchCount = 3\<close>; with \<open>d = 0\<close> it adds exactly one segment, whatever
  \<open>branchCount\<close> is.
\<close>

theorem drawTree_segment_count:
  assumes "0 \<le> d"
  shows "\<exists>new. display (drawTree s ctx x y len ang d cd) = display ctx @ new \<and>
           (branchCount (params s) = 2 \<longrightarrow> int (length new) = 2 ^ nat (d + 1) - 1) \<and>
           (branchCount (params s) = 3 \<longrightarrow> int (length new) = (3 ^ nat (d + 1) - 1) div 2) \<and>
           (d = 0 \<longrightarrow> length new = 1)"
proof -
  let ?T = "callTree s (ctm ctx) (strokeStyle ctx) x y len ang d cd"
  have disp: "display (drawTree s ctx x y len ang d cd) = display ctx @ segments_of ?T"
    using drawTree_draws [of ctx s x y len ang d cd] by (simp add: draws_def)
  have len: "int (length (segments_of ?T)) =
      (if 2 < branchCount (params s) then (3 ^ nat (d + 1) - 1) div 2 else 2 ^ nat (d + 1) - 1)"
    using callTree_count [OF assms] by (simp add: segments_of_def)
  have one: "length (segments_of ?T) = 1" if "d = 0"
    using that unfolding segments_of_def
    by (subst preorder_children) (simp add: call_children_callTree)
  show ?thesis
    using disp len one by (intro exI [of _ "segments_of ?T"]) simp
qed

theorem drawTree_segment_count_witness:
  "0 \<le> (2::int) \<and>
   (\<exists>new. display (drawTree initial_view fresh_canvas 250 500 125 0 2 0) = display fresh_canvas @ new \<and>
      int (length new) = 7) \<and>
   (\<exists>new. display (drawTree (initial_view \<lparr> params := (params initial_view) \<lparr> branchCount := 3 \<rparr> \<rparr>)
              fresh_canvas 250 500 125 0 2 0) = display fresh_canvas @ new \<and>
      int (length new) = 13) \<and>
   (\<exists>new. display (drawTree initial_view fresh_canvas 250 500 125 0 0 0) = display fresh_canvas @ new \<and>
      length new = 1)"
proof -
  have two: "branchCount (params initial_view) = 2"
    by (simp add: initial_view_def)
  have three: "branchCount (params (initial_view \<lparr> params := (params initial_view) \<lparr> branchCount := 3 \<rparr> \<rparr>)) = 3"
    by simp
  have a: "\<exists>new. display (drawTree initial_view fresh_canvas 250 500 125 0 2 0) = display fresh_canvas @ new \<and>
      int (length new) = 7"
    using drawTree_segment_count [of 2 initial_view fresh_canvas 250 500 125 0 0] two by simp
  have b: "\<exists>new. display (drawTree (initial_view \<lparr> params := (params initial_view) \<lparr> branchCount := 3 \<rparr> \<rparr>)
              fresh_canvas 250 500 125 0 2 0) = display fresh_canvas @ new \<and>
      int (length new) = 13"
    using drawTree_segment_count [of 2 "initial_view \<lparr> params := (params initial_view) \<lparr> branchCount := 3 \<rparr> \<rparr>"
        fresh_canvas 250 500 125 0 0] three by simp
  have c: "\<exists>new. display (drawTree initial_view fresh_canvas 250 500 125 0 0 0) = display fresh_canvas @ new \<and>
      length new = 1"
    using drawTree_segment_count [of 0 initial_view fresh_canvas 250 500 125 0 0] by auto
  from a b c show ?thesis by simp
qed


section \<open>Drawn lengths\<close>

lemma conformal_branch_matrix:
  "conformal M \<Longrightarrow> conformal (branch_matrix s M x y ang cd)"
  by (simp add: conformal_def branch_matrix_def mat_rotate_def mat_translate_def)

lemma rot_square:
  "(p * c - q * s)\<^sup>2 + (q * c + p * s)\<^sup>2 = (p\<^sup>2 + q\<^sup>2) * (s\<^sup>2 + c\<^sup>2)" for p q c s :: real
  by (simp add: power2_eq_square algebra_simps)

lemma stretch_branch_matrix:
  assumes "conformal M"
  shows "stretch (branch_matrix s M x y ang cd) = stretch M"
proof -
  let ?t = "(ang + wind_angle s cd) * Math_PI / 180"
  have "(ma M * cos ?t - mb M * sin ?t)\<^sup>2 + (mb M * cos ?t + ma M * sin ?t)\<^sup>2
        = ((ma M)\<^sup>2 + (mb M)\<^sup>2) * ((sin ?t)\<^sup>2 + (cos ?t)\<^sup>2)"
    by (rule rot_square)
  then show ?thesis
    using assms
    by (simp add: conformal_def stretch_def branch_matrix_def mat_rotate_def mat_translate_def)
qed

lemma renderFrame_canvas:
  "conformal (ctm (scale_ctx r r fresh_canvas)) \<and> stretch (ctm (scale_ctx r r fresh_canvas)) = \<bar>r\<bar>"
  by (simp add: conformal_def stretch_def scale_ctx_def mat_scale_def fresh_canvas_def
      identity_matrix_def)

lemma renderFrame_call_tree:
  "renderFrame s w h r =
     map call_segment
       (preorder (callTree s (ctm (scale_ctx (if r = 0 then 1 else r) (if r = 0 then 1 else r) fresh_canvas))
          Default_style (w / 2) h (h * 0.25) 0 (depth (params s)) 0))"
  by (simp add: renderFrame_def Let_def drawTree_display scale_ctx_def fresh_canvas_def)

lemma seg_length_branch_segment:
  assumes "conformal M"
  shows "seg_length (branch_segment s M st x y len ang cd) = stretch M * \<bar>drawn_length s len\<bar>"
proof -
  let ?M = "branch_matrix s M x y ang cd"
  have c: "conformal ?M" and k: "stretch ?M = stretch M"
    using assms by (simp_all add: conformal_branch_matrix stretch_branch_matrix)
  have "seg_length (branch_segment s M st x y len ang cd)
        = sqrt ((mc ?M * drawn_length s len)\<^sup>2 + (md ?M * drawn_length s len)\<^sup>2)"
    by (simp add: seg_length_def branch_segment_def transform_point_def)
  also have "(mc ?M * drawn_length s len)\<^sup>2 + (md ?M * drawn_length s len)\<^sup>2
        = ((ma ?M)\<^sup>2 + (mb ?M)\<^sup>2) * (drawn_length s len)\<^sup>2"
    using c by (simp add: conformal_def power2_eq_square algebra_simps)
  also have "sqrt (\<dots>) = stretch ?M * \<bar>drawn_length s len\<bar>"
    by (simp add: stretch_def real_sqrt_mult)
  finally show ?thesis
    by (simp add: k)
qed

lemma callTree_lengths_aux:
  "nat dep = n \<Longrightarrow> conformal M \<Longrightarrow> c \<in> set (preorder (callTree s M st x y len ang dep cd)) \<Longrightarrow>
   seg_length (call_segment c) = stretch M * \<bar>drawn_length s (call_len c)\<bar> \<and>
   (\<exists>k. call_len c = len * lengthMultiplier (params s) ^ k)"
proof (induction n arbitrary: M st x y len ang dep cd)
  case 0
  then have "dep < 1" by simp
  with 0 have "c = callTree s M st x y len ang dep cd"
    by (subst (asm) preorder_children) (simp add: call_children_callTree)
  then have "call_len c = len" "call_segment c = branch_segment s M st x y len ang cd"
    by (simp_all add: call_len_callTree call_segment_callTree)
  then show ?case
    using seg_length_branch_segment [OF "0.prems"(2)] by (auto intro: exI [of _ 0])
next
  case (Suc n)
  then have d: "\<not> dep < 1" and n: "nat (dep - 1) = n" by simp_all
  let ?M = "branch_matrix s M x y ang cd"
  let ?t = "\<lambda>ang'. callTree s ?M (branch_style s st cd) 0 (- drawn_length s len)
                (len * lengthMultiplier (params s)) ang' (dep - 1) (cd + 1)"
  have cm: "conformal ?M" and k: "stretch ?M = stretch M"
    using Suc.prems(2) by (simp_all add: conformal_branch_matrix stretch_branch_matrix)
  from Suc.prems(3) d
  consider "c = callTree s M st x y len ang dep cd"
    | ang' where "c \<in> set (preorder (?t ang'))"
    by (subst (asm) preorder_children) (auto simp: call_children_callTree split: if_splits)
  then show ?case
  proof cases
    case 1
    then have "call_len c = len" "call_segment c = branch_segment s M st x y len ang cd"
      by (simp_all add: call_len_callTree call_segment_callTree)
    then show ?thesis
      using seg_length_branch_segment [OF Suc.prems(2)] by (auto intro: exI [of _ 0])
  next
    case 2
    from Suc.IH [OF n cm 2]
    obtain j where "seg_length (call_segment c) = stretch ?M * \<bar>drawn_length s (call_len c)\<bar>"
      and "call_len c = len * lengthMultiplier (params s) * lengthMultiplier (params s) ^ j"
      by blast
    then show ?thesis
      by (auto simp: k intro: exI [of _ "Suc j"])
  qed
qed

text \<open>
  C4. The segments \<open>drawTree\<close> draws are those of its call tree, and the length of
  every one of them is the remaining length \<open>len\<close> of its call (the start length times a
  power of \<open>lengthMultiplier\<close>) times \<open>min 1 (growth * (depth / 2))\<close>, in the units of
  the canvas (\<open>stretch\<close> is 1 for a canvas that is not scaled, and the device pixel
  ratio in \<open>renderFrame\<close>). Hence with growth 0 every segment has length 0, and with
  growth at least \<open>2 / depth\<close> every segment has its full length.
\<close>

theorem drawTree_drawn_lengths:
  assumes "conformal (ctm ctx)"
  shows "display (drawTree s ctx x y len ang d cd) =
           display ctx @ map call_segment (preorder (callTree s (ctm ctx) (strokeStyle ctx) x y len ang d cd)) \<and>
         (\<forall>c \<in> set (preorder (callTree s (ctm ctx) (strokeStyle ctx) x y len ang d cd)).
            (\<exists>k. call_len c = len * lengthMultiplier (params s) ^ k) \<and>
            seg_length (call_segment c) =
              stretch (ctm ctx) * \<bar>call_len c * min 1 (growth s * (of_int (depth (params s)) / 2))\<bar> \<and>
            (growth s = 0 \<longrightarrow> seg_length (call_segment c) = 0) \<and>
            (1 \<le> depth (params s) \<and> 2 / of_int (depth (params s)) \<le> growth s \<longrightarrow>
               seg_length (call_segment c) = stretch (ctm ctx) * \<bar>call_len c\<bar>))"
proof (intro conjI ballI)
  show "display (drawTree s ctx x y len ang d cd) =
      display ctx @ map call_segment (preorder (callTree s (ctm ctx) (strokeStyle ctx) x y len ang d cd))"
    by (rule drawTree_display)
next
  fix c assume c: "c \<in> set (preorder (callTree s (ctm ctx) (strokeStyle ctx) x y len ang d cd))"
  have l: "seg_length (call_segment c) =
      stretch (ctm ctx) * \<bar>call_len c * min 1 (growth s * (of_int (depth (params s)) / 2))\<bar>"
    and k: "\<exists>k. call_len c = len * lengthMultiplier (params s) ^ k"
    using callTree_lengths_aux [OF refl assms c] by (simp_all add: drawn_length_def)
  show "\<exists>k. call_len c = len * lengthMultiplier (params s) ^ k" by (rule k)
  show "seg_length (call_segment c) =
      stretch (ctm ctx) * \<bar>call_len c * min 1 (growth s * (of_int (depth (params s)) / 2))\<bar>"
    by (rule l)
  show "growth s = 0 \<longrightarrow> seg_length (call_segment c) = 0"
    by (simp add: l)
  show "1 \<le> depth (params s) \<and> 2 / of_int (depth (params s)) \<le> growth s \<longrightarrow>
      seg_length (call_segment c) = stretch (ctm ctx) * \<bar>call_len c\<bar>"
  proof
    assume h: "1 \<le> depth (params s) \<and> 2 / of_int (depth (params s)) \<le> growth s"
    then have "0 < (of_int (depth (params s)) :: real)" by simp
    with h have "2 \<le> growth s * of_int (depth (params s))"
      by (simp add: divide_le_eq)
    then have "min 1 (growth s * (of_int (depth (params s)) / 2)) = 1"
      by simp
    then show "seg_length (call_segment c) = stretch (ctm ctx) * \<bar>call_len c\<bar>"
      by (simp add: l)
  qed
qed

theorem drawTree_drawn_lengths_witness:
  "conformal (ctm fresh_canvas) \<and>
   callTree (initial_view \<lparr> growth := 0.2 \<rparr>) (ctm fresh_canvas) (strokeStyle fresh_canvas) 250 500 125 0 10 0
     \<in> set (preorder (callTree (initial_view \<lparr> growth := 0.2 \<rparr>) (ctm fresh_canvas)
                (strokeStyle fresh_canvas) 250 500 125 0 10 0)) \<and>
   (1 \<le> depth (params (initial_view \<lparr> growth := 0.2 \<rparr>)) \<and>
    2 / of_int (depth (params (initial_view \<lparr> growth := 0.2 \<rparr>))) \<le> growth (initial_view \<lparr> growth := 0.2 \<rparr>)) \<and>
   seg_length (call_segment (callTree (initial_view \<lparr> growth := 0.2 \<rparr>) (ctm fresh_canvas)
     (strokeStyle fresh_canvas) 250 500 125 0 10 0)) = 125 \<and>
   growth initial_view = 0 \<and>
   seg_length (call_segment (callTree initial_view (ctm fresh_canvas)
     (strokeStyle fresh_canvas) 250 500 125 0 10 0)) = 0"
proof -
  let ?s = "initial_view \<lparr> growth := 0.2 \<rparr>"
  let ?T = "\<lambda>s. callTree s (ctm fresh_canvas) (strokeStyle fresh_canvas) 250 500 125 0 10 0"
  have cf: "conformal (ctm fresh_canvas)"
    by (simp add: conformal_def fresh_canvas_def identity_matrix_def)
  have st: "stretch (ctm fresh_canvas) = 1"
    by (simp add: stretch_def fresh_canvas_def identity_matrix_def)
  have g: "1 \<le> depth (params ?s) \<and> 2 / of_int (depth (params ?s)) \<le> growth ?s"
    by (simp add: initial_view_def)
  have g0: "growth initial_view = 0"
    by (simp add: initial_view_def)
  have "seg_length (call_segment (?T ?s)) = stretch (ctm fresh_canvas) * \<bar>call_len (?T ?s)\<bar>"
    using drawTree_drawn_lengths [OF cf, of ?s 250 500 125 0 10 0] root_in_preorder [of "?T ?s"] g
    by blast
  then have full: "seg_length (call_segment (?T ?s)) = 125"
    by (simp add: st call_len_callTree)
  have zero: "seg_length (call_segment (?T initial_view)) = 0"
    using drawTree_drawn_lengths [OF cf, of initial_view 250 500 125 0 10 0]
      root_in_preorder [of "?T initial_view"] g0
    by blast
  from cf g g0 full zero root_in_preorder [of "?T ?s"] show ?thesis
    by blast
qed


section \<open>Connected segments\<close>

lemma child_starts_at_tip:
  "seg_start (branch_segment s (branch_matrix s M x y ang cd) st' 0 (- drawn_length s len) len' ang' cd')
   = seg_end (branch_segment s M st x y len ang cd)"
  by (simp add: branch_segment_def branch_matrix_def transform_point_def mat_rotate_def
      mat_translate_def)

lemma callTree_connected_aux:
  "nat dep = n \<Longrightarrow> connected (callTree s M st x y len ang dep cd)"
proof (induction n arbitrary: M st x y len ang dep cd)
  case 0
  then have "dep < 1" by simp
  then show ?case
    by (subst connected_children) (simp add: call_children_callTree)
next
  case (Suc n)
  then have d: "\<not> dep < 1" and n: "nat (dep - 1) = n" by simp_all
  show ?case
    using d Suc.IH [OF n]
    by (subst connected_children)
      (simp add: call_children_callTree call_segment_callTree child_starts_at_tip)
qed

text \<open>
  C10. The segments \<open>drawTree\<close> draws are those of its call tree, and the tree is
  connected: the segment of every child call starts exactly where the segment of its
  parent ends, at the drawn tip. This holds for every state \<open>s\<close>, that is for every
  growth, every time and wind on or off.
\<close>

theorem drawTree_connected:
  "display (drawTree s ctx x y len ang d cd) =
     display ctx @ map call_segment (preorder (callTree s (ctm ctx) (strokeStyle ctx) x y len ang d cd)) \<and>
   connected (callTree s (ctm ctx) (strokeStyle ctx) x y len ang d cd)"
  using drawTree_display [of s ctx x y len ang d cd]
    callTree_connected_aux [OF refl, of s "ctm ctx" "strokeStyle ctx" x y len ang d cd]
  by simp

theorem drawTree_connected_witness:
  "length (call_children (callTree (initial_view \<lparr> growth := 1 \<rparr>) (ctm fresh_canvas)
       (strokeStyle fresh_canvas) 250 500 125 0 1 0)) = 2 \<and>
   seg_end (call_segment (callTree (initial_view \<lparr> growth := 1 \<rparr>) (ctm fresh_canvas)
       (strokeStyle fresh_canvas) 250 500 125 0 1 0)) = (250, 375) \<and>
   seg_start (call_segment (call_children (callTree (initial_view \<lparr> growth := 1 \<rparr>) (ctm fresh_canvas)
       (strokeStyle fresh_canvas) 250 500 125 0 1 0) ! 0)) = (250, 375) \<and>
   seg_start (call_segment (call_children (callTree (initial_view \<lparr> growth := 1 \<rparr>) (ctm fresh_canvas)
       (strokeStyle fresh_canvas) 250 500 125 0 1 0) ! 1)) = (250, 375)"
proof -
  let ?s = "initial_view \<lparr> growth := 1 \<rparr>"
  let ?T = "callTree ?s (ctm fresh_canvas) (strokeStyle fresh_canvas) 250 500 125 0 1 0"
  have len: "length (call_children ?T) = 2"
    by (simp add: call_children_callTree initial_view_def)
  have tip: "seg_end (call_segment ?T) = (250, 375)"
    by (simp add: call_segment_callTree branch_segment_def branch_matrix_def wind_angle_def
        drawn_length_def transform_point_def mat_rotate_def mat_translate_def fresh_canvas_def
        identity_matrix_def initial_view_def)
  have "connected ?T"
    using drawTree_connected [of ?s fresh_canvas 250 500 125 0 1 0] by (rule conjunct2)
  then have "\<forall>u \<in> set (call_children ?T). seg_start (call_segment u) = seg_end (call_segment ?T)"
    by (subst (asm) connected_children) blast
  moreover have "call_children ?T ! 0 \<in> set (call_children ?T)" "call_children ?T ! 1 \<in> set (call_children ?T)"
    using len by (simp_all del: One_nat_def)
  ultimately show ?thesis
    using len tip by simp
qed


section \<open>Growth is reset with the depth\<close>

lemma rendered_no_stale_growth:
  "(growth s \<noteq> 0 \<longrightarrow> since = Some (depth (params s))) \<Longrightarrow>
   no_stale_growth since (rendered s es)"
proof (induction es arbitrary: s since)
  case Nil
  show ?case by simp
next
  case (Cons e es)
  show ?case
  proof (cases e)
    case (Frame now)
    have "no_stale_growth (Some (depth (params s))) (rendered (animate now s) es)"
      by (rule Cons.IH) (simp add: animate_def)
    with Cons.prems Frame show ?thesis
      by auto
  next
    case ToggleWind
    with Cons.prems show ?thesis
      by (auto intro: Cons.IH)
  next
    case Regrow
    then show ?thesis
      by (auto intro: Cons.IH simp: resetAnimation_def)
  next
    case (AngleChange v)
    with Cons.prems show ?thesis
      by (auto intro: Cons.IH)
  next
    case (DepthChange v)
    then show ?thesis
      by (auto intro: Cons.IH)
  next
    case (LengthChange v)
    with Cons.prems show ?thesis
      by (auto intro: Cons.IH)
  qed
qed

lemma growth_zero_kept:
  "growth s = 0 \<Longrightarrow> \<forall>e \<in> set es. \<not> is_frame e \<Longrightarrow>
   \<exists>f. rendered s (es @ [Frame now]) = [f] \<and> growth f = 0"
proof (induction es arbitrary: s)
  case Nil
  then show ?case by simp
next
  case (Cons e es)
  then have "growth (handle s e) = 0"
    by (cases e) (simp_all add: resetAnimation_def)
  moreover have "\<forall>e \<in> set es. \<not> is_frame e"
    using Cons.prems(2) by simp
  ultimately have "\<exists>f. rendered (handle s e) (es @ [Frame now]) = [f] \<and> growth f = 0"
    by (rule Cons.IH)
  moreover have "\<not> is_frame e"
    using Cons.prems(2) by simp
  ultimately show ?case
    by (cases e) simp_all
qed

text \<open>
  C9. The handler of the depth slider leaves the growth at 0 with the new depth; no
  handler other than a frame changes that, so the next frame is drawn with growth 0;
  and in every run from the initial state, each frame drawn with a growth other than 0
  has the depth of the last frame drawn with growth 0 before it.
\<close>

theorem depth_change_resets_growth:
  "growth (handle s (DepthChange v)) = 0 \<and> depth (params (handle s (DepthChange v))) = v \<and>
   (\<forall>es now. (\<forall>e \<in> set es. \<not> is_frame e) \<longrightarrow>
      (\<exists>f. rendered (handle s (DepthChange v)) (es @ [Frame now]) = [f] \<and> growth f = 0)) \<and>
   (\<forall>es. no_stale_growth None (rendered initial_view es))"
proof (intro conjI allI impI)
  show "growth (handle s (DepthChange v)) = 0" by simp
  show "depth (params (handle s (DepthChange v))) = v" by simp
next
  fix es now assume "\<forall>e \<in> set es. \<not> is_frame e"
  then show "\<exists>f. rendered (handle s (DepthChange v)) (es @ [Frame now]) = [f] \<and> growth f = 0"
    by (intro growth_zero_kept) simp_all
next
  fix es
  show "no_stale_growth None (rendered initial_view es)"
    by (rule rendered_no_stale_growth) (simp add: initial_view_def)
qed

theorem depth_change_resets_growth_witness:
  "(\<not> is_frame (AngleChange 30) \<and> \<not> is_frame ToggleWind) \<and>
   (\<exists>f. rendered (handle (initial_view \<lparr> growth := 0.5 \<rparr>) (DepthChange 7))
          ([AngleChange 30, ToggleWind] @ [Frame 1000]) = [f] \<and> growth f = 0) \<and>
   no_stale_growth None
     (rendered initial_view [Frame 1, Frame 2, DepthChange 7, AngleChange 30, Frame 3, Frame 4])"
proof -
  have nf: "\<forall>e \<in> set [AngleChange 30, ToggleWind]. \<not> is_frame e"
    by simp
  have "\<exists>f. rendered (handle (initial_view \<lparr> growth := 0.5 \<rparr>) (DepthChange 7))
          ([AngleChange 30, ToggleWind] @ [Frame 1000]) = [f] \<and> growth f = 0"
    using depth_change_resets_growth [of "initial_view \<lparr> growth := 0.5 \<rparr>" 7] nf by blast
  moreover have "no_stale_growth None
     (rendered initial_view [Frame 1, Frame 2, DepthChange 7, AngleChange 30, Frame 3, Frame 4])"
    using depth_change_resets_growth [of initial_view 7] by blast
  ultimately show ?thesis by simp
qed

end
